theory Spec2Isabelle
  imports Main "HOL-Library.Multiset"
begin

section \<open>JavaScript strings\<close>

text \<open>
  A JavaScript string is a sequence of code units. The model represents the code units
  \<open>0..255\<close> as \<^typ>\<open>char\<close>; the source inspects no code unit above that range by value
  (\<open>\d\<close> and \<open>\w\<close> are ASCII classes, \<open>[\s\S]\<close> accepts every code unit), apart from the
  white space that \<open>trim\<close> strips, of which the model knows the members below 256.
\<close>

definition is_ws :: "char \<Rightarrow> bool" where
  \<comment> \<open>WhiteSpace and LineTerminator of ECMAScript: TAB, LF, VT, FF, CR, SP, NBSP.\<close>
  "is_ws c = (of_char c \<in> {9, 10, 11, 12, 13, 32, 160 :: nat})"

definition trim :: "string \<Rightarrow> string" where
  \<comment> \<open>\<open>String.prototype.trim\<close>\<close>
  "trim s = rev (dropWhile is_ws (rev (dropWhile is_ws s)))"

definition to_lower :: "char \<Rightarrow> char" where
  "to_lower c =
     (let n = (of_char c :: nat)
      in if (65 \<le> n \<and> n \<le> 90) \<or> (192 \<le> n \<and> n \<le> 222 \<and> n \<noteq> 215)
         then char_of (n + 32) else c)"

definition toLowerCase :: "string \<Rightarrow> string" where
  "toLowerCase s = map to_lower s"

fun starts_with :: "string \<Rightarrow> string \<Rightarrow> bool" where
  \<comment> \<open>\<open>starts_with p s\<close>: \<open>s.startsWith(p)\<close>\<close>
  "starts_with [] s = True"
| "starts_with (p # ps) [] = False"
| "starts_with (p # ps) (c # cs) = (p = c \<and> starts_with ps cs)"

fun includes_str :: "string \<Rightarrow> string \<Rightarrow> bool" where
  \<comment> \<open>\<open>includes_str s p\<close>: \<open>s.includes(p)\<close>\<close>
  "includes_str [] p = starts_with p []"
| "includes_str (c # cs) p = (starts_with p (c # cs) \<or> includes_str cs p)"

fun split_nl :: "string \<Rightarrow> string list" where
  \<comment> \<open>\<open>s.split('\n')\<close>: never empty, \<open>"".split('\n')\<close> is \<open>[""]\<close>\<close>
  "split_nl [] = [[]]"
| "split_nl (c # cs) =
     (if c = CHR 0x0A then [] # split_nl cs
      else (case split_nl cs of [] \<Rightarrow> [[c]] | l # ls \<Rightarrow> (c # l) # ls))"

definition is_digit :: "char \<Rightarrow> bool" where
  "is_digit c = (48 \<le> (of_char c :: nat) \<and> (of_char c :: nat) \<le> 57)"

definition is_word :: "char \<Rightarrow> bool" where
  \<comment> \<open>\<open>\w\<close> is \<open>[A-Za-z0-9_]\<close>\<close>
  "is_word c =
     (let n = (of_char c :: nat)
      in (48 \<le> n \<and> n \<le> 57) \<or> (65 \<le> n \<and> n \<le> 90) \<or> (97 \<le> n \<and> n \<le> 122) \<or> n = 95)"

definition parseInt :: "string \<Rightarrow> int" where
  \<comment> \<open>\<open>parseInt\<close> on a string of decimal digits, the only strings the source passes.
      JavaScript rounds a value beyond \<open>2^53\<close> to a double; rounding is monotone and
      exact up to \<open>2^53\<close>, so it does not change the result of the clamp to \<open>[0, 100]\<close>.\<close>
  "parseInt ds = foldl (\<lambda>acc c. 10 * acc + (int (of_char c) - 48)) 0 ds"

fun show_nat :: "nat \<Rightarrow> string" where
  \<comment> \<open>the decimal digits of a number, as a template literal prints it\<close>
  "show_nat n =
     (if n < 10 then [char_of (48 + n)]
      else show_nat (n div 10) @ [char_of (48 + n mod 10)])"

section \<open>Regular expressions with backtracking\<close>

text \<open>
  The constructs the source's five regular expressions use. A match is tried by
  backtracking: \<open>run r s\<close> lists, in the order the backtracking matcher tries them, every
  way for \<open>r\<close> to match a prefix of \<open>s\<close>, as the captures made and the input left.
\<close>

datatype cclass = Digit | Word | AnyChar

fun in_class :: "cclass \<Rightarrow> char \<Rightarrow> bool" where
  "in_class Digit c = is_digit c"
| "in_class Word c = is_word c"
| "in_class AnyChar c = True"

datatype regex =
    Lit string          \<comment> \<open>literal characters\<close>
  | Plus cclass         \<comment> \<open>\<open>c+\<close>, greedy\<close>
  | StarLazy cclass     \<comment> \<open>\<open>c*?\<close>, lazy\<close>
  | Opt regex           \<comment> \<open>\<open>(?:r)?\<close>, greedy\<close>
  | Group regex         \<comment> \<open>\<open>(r)\<close>, capturing\<close>
  | Seq regex regex     \<comment> \<open>concatenation\<close>

fun ngroups :: "regex \<Rightarrow> nat" where
  "ngroups (Lit l) = 0"
| "ngroups (Plus c) = 0"
| "ngroups (StarLazy c) = 0"
| "ngroups (Opt r) = ngroups r"
| "ngroups (Group r) = Suc (ngroups r)"
| "ngroups (Seq a b) = ngroups a + ngroups b"

fun lazy_rests :: "cclass \<Rightarrow> string \<Rightarrow> string list" where
  \<comment> \<open>what is left after \<open>c*?\<close> consumed 0, 1, 2, ... characters\<close>
  "lazy_rests c [] = [[]]"
| "lazy_rests c (x # xs) = (x # xs) # (if in_class c x then lazy_rests c xs else [])"

type_synonym captures = "string option list"

fun run :: "regex \<Rightarrow> string \<Rightarrow> (captures \<times> string) list" where
  "run (Lit l) s = (if starts_with l s then [([], drop (length l) s)] else [])"
| "run (Plus c) s = map (\<lambda>r. ([], r)) (rev (tl (lazy_rests c s)))"
| "run (StarLazy c) s = map (\<lambda>r. ([], r)) (lazy_rests c s)"
| "run (Opt r) s = run r s @ [(replicate (ngroups r) None, s)]"
| "run (Group r) s =
     map (\<lambda>(caps, rest). (Some (take (length s - length rest) s) # caps, rest)) (run r s)"
| "run (Seq a b) s =
     concat (map (\<lambda>(c1, s1). map (\<lambda>(c2, s2). (c1 @ c2, s2)) (run b s1)) (run a s))"

record rx_match =
  before_match :: string      \<comment> \<open>the input before the match (its length is \<open>index\<close>)\<close>
  matched :: string     \<comment> \<open>element 0 of the match array\<close>
  groups :: captures    \<comment> \<open>elements 1, 2, ... of the match array; \<open>None\<close> is \<open>undefined\<close>\<close>
  after_match :: string       \<comment> \<open>the input after the match\<close>

definition match_at :: "regex \<Rightarrow> string \<Rightarrow> rx_match option" where
  \<comment> \<open>the match that starts at the first character of \<open>s\<close>, if there is one\<close>
  "match_at r s =
     (case run r s of
        [] \<Rightarrow> None
      | (caps, rest) # _ \<Rightarrow>
          Some \<lparr>before_match = [], matched = take (length s - length rest) s, groups = caps, after_match = rest\<rparr>)"

fun rx_exec :: "regex \<Rightarrow> string \<Rightarrow> rx_match option" where
  \<comment> \<open>\<open>s.match(r)\<close> without the \<open>g\<close> flag: the leftmost match\<close>
  "rx_exec r [] = match_at r []"
| "rx_exec r (c # cs) =
     (case match_at r (c # cs) of
        Some m \<Rightarrow> Some m
      | None \<Rightarrow> map_option (\<lambda>m. m\<lparr>before_match := c # before_match m\<rparr>) (rx_exec r cs))"

definition replace_first :: "regex \<Rightarrow> string \<Rightarrow> string" where
  \<comment> \<open>\<open>s.replace(r, "")\<close> for \<open>r\<close> without the \<open>g\<close> flag\<close>
  "replace_first r s = (case rx_exec r s of None \<Rightarrow> s | Some m \<Rightarrow> before_match m @ after_match m)"

lemma lazy_rests_suffix: "x \<in> set (lazy_rests c s) \<Longrightarrow> \<exists>p. s = p @ x"
proof (induction s)
  case Nil
  then show ?case by simp
next
  case (Cons a s)
  then show ?case
    by (auto split: if_splits intro: exI [of _ "[]"])
qed

lemma starts_with_iff: "starts_with p s \<longleftrightarrow> (\<exists>t. s = p @ t)"
  by (induction p s rule: starts_with.induct) auto

lemma run_suffix: "(caps, rest) \<in> set (run r s) \<Longrightarrow> \<exists>p. s = p @ rest"
proof (induction r arbitrary: s caps rest)
  case (Lit l)
  then show ?case by (auto simp: starts_with_iff split: if_splits)
next
  case (Plus c)
  then have "rest \<in> set (lazy_rests c s)"
    by (cases "lazy_rests c s") auto
  then show ?case by (rule lazy_rests_suffix)
next
  case (StarLazy c)
  then show ?case by (auto dest: lazy_rests_suffix)
next
  case (Opt r)
  then show ?case by auto
next
  case (Group r)
  then show ?case by auto
next
  case (Seq a b)
  from Seq.prems obtain c1 s1 c2 where a: "(c1, s1) \<in> set (run a s)"
    and b: "(c2, rest) \<in> set (run b s1)"
    by auto
  from Seq.IH(1) [OF a] obtain p where "s = p @ s1" by blast
  moreover from Seq.IH(2) [OF b] obtain q where "s1 = q @ rest" by blast
  ultimately have "s = (p @ q) @ rest" by simp
  then show ?case by blast
qed

lemma match_at_split:
  assumes "match_at r s = Some m"
  shows "before_match m = [] \<and> s = matched m @ after_match m"
proof -
  from assms obtain caps rest tl where run: "run r s = (caps, rest) # tl"
    and m: "m = \<lparr>before_match = [], matched = take (length s - length rest) s, groups = caps, after_match = rest\<rparr>"
    by (auto simp: match_at_def split: list.splits)
  from run have "(caps, rest) \<in> set (run r s)" by simp
  then obtain p where "s = p @ rest" by (blast dest: run_suffix)
  with m show ?thesis by simp
qed

lemma rx_exec_split: "rx_exec r s = Some m \<Longrightarrow> s = before_match m @ matched m @ after_match m"
proof (induction s arbitrary: m)
  case Nil
  then show ?case using match_at_split [of r "[]" m] by simp
next
  case (Cons c cs)
  show ?case
  proof (cases "match_at r (c # cs)")
    case None
    with Cons.prems obtain m' where m': "rx_exec r cs = Some m'" and m: "m = m'\<lparr>before_match := c # before_match m'\<rparr>"
      by auto
    from Cons.IH [OF m'] m show ?thesis by simp
  next
    case (Some a)
    with Cons.prems have "match_at r (c # cs) = Some m" by simp
    from match_at_split [OF this] show ?thesis by simp
  qed
qed

function replace_all :: "regex \<Rightarrow> string \<Rightarrow> string" where
  \<comment> \<open>\<open>s.replace(r, "")\<close> for \<open>r\<close> with the \<open>g\<close> flag: the search resumes where the last
      match ended, one character further on after an empty match\<close>
  "replace_all r s =
     (case rx_exec r s of
        None \<Rightarrow> s
      | Some m \<Rightarrow>
          if matched m = []
          then (case after_match m of [] \<Rightarrow> before_match m | c # cs \<Rightarrow> before_match m @ c # replace_all r cs)
          else before_match m @ replace_all r (after_match m))"
  by pat_completeness auto
termination
proof (relation "measure (\<lambda>(r, s). length s)")
  show "wf (measure (\<lambda>(r, s). length s))" by simp
next
  fix r s m c cs
  assume "rx_exec r s = Some m" "after_match m = c # cs"
  then show "((r, cs), (r, s)) \<in> measure (\<lambda>(r, s). length s)"
    using rx_exec_split [of r s m] by (metis (no_types, lifting) case_prod_conv in_measure
        length_Cons length_append less_Suc_eq trans_less_add2)
next
  fix r s m
  assume "rx_exec r s = Some m" "matched m \<noteq> []"
  then show "((r, after_match m), (r, s)) \<in> measure (\<lambda>(r, s). length s)"
    using rx_exec_split [of r s m] by (metis (no_types, lifting) case_prod_conv in_measure
        length_append length_greater_0_conv trans_less_add2 less_add_same_cancel2)
qed

definition capture :: "nat \<Rightarrow> rx_match \<Rightarrow> string option" where
  \<comment> \<open>\<open>m[i]\<close> on a match array; \<open>None\<close> is \<open>undefined\<close>\<close>
  "capture i m =
     (if i = 0 then Some (matched m)
      else if i - 1 < length (groups m) then groups m ! (i - 1) else None)"

subsection \<open>The regular expressions of the source\<close>

definition SCORE_RX :: regex where
  \<comment> \<open>\<open>/<SCORE:(\d+)>/\<close>\<close>
  "SCORE_RX = Seq (Lit ''<SCORE:'') (Seq (Group (Plus Digit)) (Lit ''>''))"

definition FENCE_RX :: regex where
  \<comment> \<open>\<open>/```(?:\w+\n)?([\s\S]*?)```/\<close>\<close>
  "FENCE_RX =
     Seq (Lit ''```'')
       (Seq (Opt (Seq (Plus Word) (Lit [CHR 0x0A])))
         (Seq (Group (StarLazy AnyChar)) (Lit ''```'')))"

definition FENCE_STRIP_RX :: regex where
  \<comment> \<open>\<open>/```[\s\S]*?```/\<close>\<close>
  "FENCE_STRIP_RX = Seq (Lit ''```'') (Seq (StarLazy AnyChar) (Lit ''```''))"

definition SCORE_TAG_RX :: regex where
  \<comment> \<open>\<open>/<SCORE:\d+>/g\<close>\<close>
  "SCORE_TAG_RX = Seq (Lit ''<SCORE:'') (Seq (Plus Digit) (Lit ''>''))"

definition THINK_RX :: regex where
  \<comment> \<open>\<open>/<think>[\s\S]*?<\/think>/g\<close>\<close>
  "THINK_RX = Seq (Lit ''<think>'') (Seq (StarLazy AnyChar) (Lit ''</think>''))"

section \<open>The analysis of one file (\<open>processFile\<close> in \<open>App.tsx\<close>)\<close>

text \<open>
  \<open>types.ts\<close> is not among the sources; the records list the fields the code reads and
  writes.
\<close>

record FileWithContent =
  name :: string
  path :: string
  content :: string
  extension :: string

record ValidationResult =
  fileName :: string
  filePath :: string                 \<comment> \<open>the field \<open>path\<close> of the result\<close>
  code :: string
  result :: string
  score :: int
  correctedCode :: "string option"   \<comment> \<open>\<open>None\<close> is \<open>undefined\<close>\<close>
  hasCorrections :: bool

datatype json =
    JNull
  | JBool bool
  | JNum int          \<comment> \<open>a number; the source tests only whether it is zero\<close>
  | JStr string
  | JArr "json list"
  | JObj "(string \<times> json) list"

text \<open>A JavaScript value read out of the parsed body: \<open>None\<close> is \<open>undefined\<close>.\<close>

fun get_prop :: "string \<Rightarrow> json option \<Rightarrow> json option" where
  \<comment> \<open>\<open>v?.k\<close> for the keys the source reads (\<open>choices\<close>, \<open>message\<close>, \<open>content\<close>), none of
      which a string, an array, a number or a boolean has\<close>
  "get_prop k (Some (JObj kvs)) = map_of kvs k"
| "get_prop k v = None"

fun get_index0 :: "json option \<Rightarrow> json option" where
  \<comment> \<open>\<open>v?.[0]\<close>\<close>
  "get_index0 (Some (JArr xs)) = (case xs of [] \<Rightarrow> None | x # _ \<Rightarrow> Some x)"
| "get_index0 (Some (JStr s)) = (case s of [] \<Rightarrow> None | c # _ \<Rightarrow> Some (JStr [c]))"
| "get_index0 (Some (JObj kvs)) = map_of kvs ''0''"
| "get_index0 v = None"

fun truthy :: "json option \<Rightarrow> bool" where
  "truthy None = False"
| "truthy (Some JNull) = False"
| "truthy (Some (JBool b)) = b"
| "truthy (Some (JNum n)) = (n \<noteq> 0)"
| "truthy (Some (JStr s)) = (s \<noteq> [])"
| "truthy (Some (JArr xs)) = True"
| "truthy (Some (JObj kvs)) = True"

fun or_else :: "json option \<Rightarrow> json \<Rightarrow> json" where
  \<comment> \<open>\<open>v || d\<close>\<close>
  "or_else None d = d"
| "or_else (Some v) d = (if truthy (Some v) then v else d)"

datatype thrown =
    JsError string     \<comment> \<open>an \<open>Error\<close> object and its \<open>message\<close>\<close>
  | NonError           \<comment> \<open>any other thrown value\<close>

datatype fetch_result =
    Rejected thrown                  \<comment> \<open>\<open>fetch\<close> rejects: the request could not be made\<close>
  | Response nat "thrown + json"     \<comment> \<open>the status, and what \<open>response.json()\<close> settles to\<close>

definition response_ok :: "nat \<Rightarrow> bool" where
  \<comment> \<open>\<open>response.ok\<close>: the status is in the range 200 to 299\<close>
  "response_ok status = (200 \<le> status \<and> status \<le> 299)"

definition response_content :: "json \<Rightarrow> json option" where
  \<comment> \<open>\<open>data?.choices?.[0]?.message?.content\<close>\<close>
  "response_content data =
     get_prop ''content'' (get_prop ''message'' (get_index0 (get_prop ''choices'' (Some data))))"

definition extract_score :: "string \<Rightarrow> int" where
  \<comment> \<open>lines 85 and 86: \<open>scoreMatch?.[1] || "0"\<close>, parsed and clamped\<close>
  "extract_score aiResponse =
     (let scoreMatch = rx_exec SCORE_RX aiResponse;
          scoreText =
            (case scoreMatch of
               None \<Rightarrow> ''0''
             | Some m \<Rightarrow> (case capture 1 m of None \<Rightarrow> ''0'' | Some t \<Rightarrow> if t = [] then ''0'' else t))
      in min (max (parseInt scoreText) 0) 100)"

definition extract_correctedCode :: "string \<Rightarrow> thrown + string option" where
  \<comment> \<open>lines 88 and 89. Reading \<open>.trim\<close> of an \<open>undefined\<close> capture would throw a
      \<open>TypeError\<close>; \<open>Inr None\<close> is \<open>undefined\<close>.\<close>
  "extract_correctedCode aiResponse =
     (let correctedCodeMatch = rx_exec FENCE_RX aiResponse
      in case correctedCodeMatch of
           None \<Rightarrow> Inr None
         | Some m \<Rightarrow>
             (case capture 1 m of
                None \<Rightarrow> Inl (JsError ''Cannot read properties of undefined'')
              | Some t \<Rightarrow> Inr (Some (trim t))))"

definition parse_response :: "FileWithContent \<Rightarrow> string \<Rightarrow> thrown + ValidationResult" where
  \<comment> \<open>lines 85 to 99: from the text of the response to the stored result\<close>
  "parse_response file aiResponse =
     (case extract_correctedCode aiResponse of
        Inl e \<Rightarrow> Inl e
      | Inr correctedCode' \<Rightarrow>
          Inr \<lparr>fileName = name file,
               filePath = path file,
               code = content file,
               result = trim (replace_first FENCE_STRIP_RX aiResponse),
               score = extract_score aiResponse,
               correctedCode = correctedCode',
               hasCorrections = (correctedCode' \<noteq> None \<and> correctedCode' \<noteq> Some [])\<rparr>)"

definition processFile_try :: "FileWithContent \<Rightarrow> fetch_result \<Rightarrow> thrown + ValidationResult" where
  \<comment> \<open>the \<open>try\<close> block of \<open>processFile\<close>; \<open>Inl\<close> is what it throws\<close>
  "processFile_try file r =
     (case r of
        Rejected e \<Rightarrow> Inl e
      | Response status body \<Rightarrow>
          if \<not> response_ok status then Inl (JsError (''Server error: '' @ show_nat status))
          else (case body of
                  Inl e \<Rightarrow> Inl e
                | Inr data \<Rightarrow>
                    (case or_else (response_content data) (JStr ''No response received.'') of
                       JStr aiResponse \<Rightarrow> parse_response file aiResponse
                     | _ \<Rightarrow> Inl (JsError ''aiResponse.match is not a function''))))"

definition processFile :: "FileWithContent \<Rightarrow> fetch_result \<Rightarrow> ValidationResult" where
  \<comment> \<open>\<open>processFile\<close> with its \<open>catch\<close>: the result it appends to \<open>validationResults\<close>\<close>
  "processFile file r =
     (case processFile_try file r of
        Inr res \<Rightarrow> res
      | Inl error \<Rightarrow>
          \<lparr>fileName = name file,
           filePath = path file,
           code = content file,
           result = ''Error: '' @ (case error of JsError message \<Rightarrow> message
                                               | NonError \<Rightarrow> ''Failed to analyze code''),
           score = 0,
           correctedCode = None,
           hasCorrections = False\<rparr>)"

section \<open>The batch (\<open>validateCode\<close> in \<open>App.tsx\<close>)\<close>

record StreamingState =
  isAnalyzing :: bool
  currentFile :: string
  currentStep :: string

record app_state =
  files :: "FileWithContent list"
  validationResults :: "ValidationResult list"
  streamingState :: StreamingState

definition handleFilesSelected :: "FileWithContent list \<Rightarrow> app_state \<Rightarrow> app_state" where
  \<comment> \<open>the two state updates of \<open>handleFilesSelected\<close>, once the contents were read\<close>
  "handleFilesSelected fileContents st = st\<lparr>files := fileContents, validationResults := []\<rparr>"

definition dispatch :: "app_state \<Rightarrow> FileWithContent \<Rightarrow> app_state" where
  \<comment> \<open>the synchronous start of \<open>processFile\<close>, up to the \<open>await\<close> of \<open>fetch\<close>\<close>
  "dispatch st file =
     st\<lparr>streamingState :=
          (streamingState st)\<lparr>currentFile := path file, currentStep := ''Analyzing code...''\<rparr>\<rparr>"

definition settle :: "FileWithContent list \<Rightarrow> fetch_result list \<Rightarrow> app_state \<Rightarrow> nat \<Rightarrow> app_state" where
  \<comment> \<open>the request of file number \<open>i\<close> settles to \<open>rs ! i\<close>, and \<open>processFile\<close> appends its
      result with \<open>setValidationResults((prev) => [...prev, result])\<close>\<close>
  "settle fs rs st i =
     (if i < length fs \<and> i < length rs
      then st\<lparr>validationResults := validationResults st @ [processFile (fs ! i) (rs ! i)]\<rparr>
      else st)"

definition validateCode :: "fetch_result list \<Rightarrow> nat list \<Rightarrow> app_state \<Rightarrow> app_state" where
  \<comment> \<open>\<open>rs\<close>: what the request of each file settles to; \<open>order\<close>: the order in which the
      requests settle (file numbers). All requests are dispatched before any settles, and
      \<open>Promise.all\<close> waits for all of them.\<close>
  "validateCode rs order st =
     (if files st = [] then st
      else
        let st1 = st\<lparr>streamingState :=
                       \<lparr>isAnalyzing = True, currentFile = [], currentStep = ''Initializing...''\<rparr>,
                     validationResults := []\<rparr>;
            st2 = foldl dispatch st1 (files st);
            st3 = foldl (settle (files st) rs) st2 order
        in st3\<lparr>streamingState := \<lparr>isAnalyzing = False, currentFile = [], currentStep = []\<rparr>\<rparr>)"

section \<open>The display of a result (\<open>processAnalysisResult\<close> in \<open>ValidationResults.tsx\<close>)\<close>

definition cleanedResult :: "string \<Rightarrow> string" where
  "cleanedResult res = trim (replace_all THINK_RX (replace_all SCORE_TAG_RX res))"

datatype section_key = Analysis | Suggestions | Security | Performance

record sections =
  analysis :: "string list"
  suggestions :: "string list"
  security :: "string list"
  performance :: "string list"

fun push :: "section_key \<Rightarrow> string \<Rightarrow> sections \<Rightarrow> sections" where
  \<comment> \<open>\<open>sections[currentSection].push(l)\<close>\<close>
  "push Analysis l secs = secs\<lparr>analysis := analysis secs @ [l]\<rparr>"
| "push Suggestions l secs = secs\<lparr>suggestions := suggestions secs @ [l]\<rparr>"
| "push Security l secs = secs\<lparr>security := security secs @ [l]\<rparr>"
| "push Performance l secs = secs\<lparr>performance := performance secs @ [l]\<rparr>"

definition next_section :: "section_key \<Rightarrow> string \<Rightarrow> section_key" where
  \<comment> \<open>the cursor after the \<open>if\<close> chain of the loop body\<close>
  "next_section currentSection line =
     (let lowerLine = toLowerCase line
      in if includes_str lowerLine ''security'' \<or> includes_str lowerLine ''vulnerability''
         then Security
         else if includes_str lowerLine ''performance'' \<or> includes_str lowerLine ''optimization''
         then Performance
         else if includes_str lowerLine ''suggestion'' \<or> includes_str lowerLine ''recommendation''
         then Suggestions
         else currentSection)"

definition classify_line :: "section_key \<times> sections \<Rightarrow> string \<Rightarrow> section_key \<times> sections" where
  \<comment> \<open>the body of \<open>lines.forEach\<close>, on the cursor and the sections\<close>
  "classify_line st line =
     (let currentSection = next_section (fst st) line
      in (currentSection,
          if trim line \<noteq> [] then push currentSection (trim line) (snd st) else snd st))"

definition classify_lines :: "string list \<Rightarrow> sections" where
  \<comment> \<open>the loop over the lines, from the cursor \<open>'analysis'\<close> and four empty sections\<close>
  "classify_lines ls =
     snd (foldl classify_line
            (Analysis, \<lparr>analysis = [], suggestions = [], security = [], performance = []\<rparr>) ls)"

definition processAnalysisResult :: "string \<Rightarrow> sections" where
  "processAnalysisResult res = classify_lines (split_nl (cleanedResult res))"

section \<open>Running code (\<open>runCode\<close> in \<open>App.tsx\<close>)\<close>

record exec_state =
  executionOutput :: string
  timers :: "nat list"          \<comment> \<open>the delay of every \<open>setTimeout(checkResult, _)\<close> made, in order\<close>
  polls :: nat                  \<comment> \<open>the status requests sent\<close>
  errorLog :: "string list"     \<comment> \<open>the calls of \<open>console.error\<close>\<close>

datatype poll_reply =
    PollRejected                                   \<comment> \<open>\<open>axios.get\<close> rejects, or the reply has no \<open>status\<close>\<close>
  | PollReply int "string option" "string option"  \<comment> \<open>\<open>status.id\<close>, \<open>stdout\<close>, \<open>stderr\<close>; \<open>None\<close> is \<open>null\<close>\<close>

datatype submit_reply =
    SubmitRejected              \<comment> \<open>\<open>axios.post\<close> rejects\<close>
  | SubmitReply "json option"   \<comment> \<open>\<open>response.data\<close>\<close>

fun js_string :: "string option \<Rightarrow> string" where
  \<comment> \<open>a string or \<open>null\<close> appended to a string\<close>
  "js_string None = ''null''"
| "js_string (Some s) = s"

fun stdout_or_error :: "string option \<Rightarrow> string option \<Rightarrow> string" where
  \<comment> \<open>\<open>stdout || "Error: " + stderr\<close>\<close>
  "stdout_or_error (Some out) err = (if out \<noteq> [] then out else ''Error: '' @ js_string err)"
| "stdout_or_error None err = ''Error: '' @ js_string err"

partial_function (option) checkResult :: "(nat \<Rightarrow> poll_reply) \<Rightarrow> nat \<Rightarrow> exec_state \<Rightarrow> exec_state option" where
  \<comment> \<open>\<open>checkResult\<close> as a timer runs it for the status request number \<open>k\<close> of a run, to
      the state in which no timer is pending; \<open>judge k\<close> is what that request settles to.
      \<open>None\<close>: the polling goes on for ever. When the request rejects, so does
      \<open>checkResult\<close>, and nothing handles it.\<close>
  "checkResult judge k st =
     (let st1 = st\<lparr>polls := Suc (polls st)\<rparr>
      in case judge k of
           PollRejected \<Rightarrow> Some st1
         | PollReply status_id out err \<Rightarrow>
             if status_id \<le> 2
             then checkResult judge (Suc k) (st1\<lparr>timers := timers st1 @ [1000]\<rparr>)
             else Some (st1\<lparr>executionOutput := stdout_or_error out err\<rparr>))"

declare checkResult.simps [code]

definition runCode :: "submit_reply \<Rightarrow> (nat \<Rightarrow> poll_reply) \<Rightarrow> exec_state \<Rightarrow> exec_state option" where
  \<comment> \<open>\<open>runCode\<close> and the timers it starts. Reading \<open>token\<close> of a \<open>response.data\<close> that
      is \<open>undefined\<close> or \<open>null\<close> throws inside the \<open>try\<close> block, like the rejected request.\<close>
  "runCode submit judge st =
     (let st1 = st\<lparr>executionOutput := ''Running...''\<rparr>;
          failed = st1\<lparr>errorLog := errorLog st1 @ [''Error running code:''],
                       executionOutput := ''Execution failed.''\<rparr>
      in case submit of
           SubmitRejected \<Rightarrow> Some failed
         | SubmitReply None \<Rightarrow> Some failed
         | SubmitReply (Some JNull) \<Rightarrow> Some failed
         | SubmitReply (Some data) \<Rightarrow> checkResult judge 0 (st1\<lparr>timers := timers st1 @ [1000]\<rparr>))"

text \<open>The two conditions the source tests: \<open>status.id <= 2\<close>, and the \<open>try\<close> block failing.\<close>

definition non_terminal :: "poll_reply \<Rightarrow> bool" where
  "non_terminal p = (case p of PollRejected \<Rightarrow> False | PollReply status_id out err \<Rightarrow> status_id \<le> 2)"

definition submit_failed :: "submit_reply \<Rightarrow> bool" where
  "submit_failed submit =
     (case submit of SubmitRejected \<Rightarrow> True | SubmitReply None \<Rightarrow> True
      | SubmitReply (Some JNull) \<Rightarrow> True | SubmitReply (Some data) \<Rightarrow> False)"

section \<open>Notions of the specification\<close>

text \<open>
  What the specification speaks of, defined without the matcher: the first occurrence of a
  text in a string, the first fenced block and its interior, the first \<open><think>\<close> span, the
  score tag, the removal of every span of a kind, the trigger words, and the section under
  which a line falls. The properties below relate the code to these.
\<close>

fun split_first :: "string \<Rightarrow> string \<Rightarrow> (string \<times> string) option" where
  \<comment> \<open>\<open>split_first l s\<close>: what stands before and after the first occurrence of \<open>l\<close> in \<open>s\<close>\<close>
  "split_first l [] = (if l = [] then Some ([], []) else None)"
| "split_first l (c # cs) =
     (if starts_with l (c # cs) then Some ([], drop (length l) (c # cs))
      else map_option (\<lambda>(p, q). (c # p, q)) (split_first l cs))"

definition has_tag :: "string \<Rightarrow> bool" where
  \<comment> \<open>a language tag opens the text: one or more word characters, then a line feed\<close>
  "has_tag t = (takeWhile is_word t \<noteq> [] \<and> starts_with [CHR 0x0A] (dropWhile is_word t))"

definition strip_tag :: "string \<Rightarrow> string" where
  \<comment> \<open>the interior of a fenced block: what follows the language tag, when there is one\<close>
  "strip_tag t =
     (if takeWhile is_word t \<noteq> [] \<and> starts_with [CHR 0x0A] (dropWhile is_word t)
      then drop 1 (dropWhile is_word t) else t)"

definition span_between :: "string \<Rightarrow> string \<Rightarrow> string \<Rightarrow> (string \<times> string \<times> string) option" where
  \<comment> \<open>the first span that \<open>op\<close> opens and \<open>cl\<close> closes: the text before the first \<open>op\<close>, the
      text between it and the next \<open>cl\<close>, and the text after that \<open>cl\<close>\<close>
  "span_between op cl s =
     (case split_first op s of
        None \<Rightarrow> None
      | Some (pre, t) \<Rightarrow>
          (case split_first cl t of
             None \<Rightarrow> None
           | Some (inner, post) \<Rightarrow> Some (pre, inner, post)))"

definition fence_span :: "string \<Rightarrow> (string \<times> string \<times> string) option" where
  \<comment> \<open>the first fenced block\<close>
  "fence_span s = span_between ''```'' ''```'' s"

definition think_span :: "string \<Rightarrow> (string \<times> string \<times> string) option" where
  \<comment> \<open>the first \<open><think>...</think>\<close> span\<close>
  "think_span s = span_between ''<think>'' ''</think>'' s"

definition digits :: "string \<Rightarrow> bool" where
  \<comment> \<open>one or more decimal digits\<close>
  "digits ds = (ds \<noteq> [] \<and> list_all is_digit ds)"

definition score_tag :: "string \<Rightarrow> string" where
  \<comment> \<open>the tag \<open><SCORE:N>\<close>\<close>
  "score_tag ds = ''<SCORE:'' @ ds @ ''>''"

definition tag_here :: "string \<Rightarrow> (string \<times> string) option" where
  \<comment> \<open>a score tag opens the text: its digits, and the text after it\<close>
  "tag_here s =
     (if starts_with ''<SCORE:'' s \<and> takeWhile is_digit (drop 7 s) \<noteq> [] \<and>
         starts_with ''>'' (dropWhile is_digit (drop 7 s))
      then Some (takeWhile is_digit (drop 7 s), drop 1 (dropWhile is_digit (drop 7 s)))
      else None)"

fun first_tag :: "string \<Rightarrow> (string \<times> string \<times> string) option" where
  \<comment> \<open>the first score tag: the text before it, its digits, and the text after it\<close>
  "first_tag [] = None"
| "first_tag (c # cs) =
     (case tag_here (c # cs) of
        Some (ds, rest) \<Rightarrow> Some ([], ds, rest)
      | None \<Rightarrow> map_option (\<lambda>(pre, ds, rest). (c # pre, ds, rest)) (first_tag cs))"

text \<open>
  Removing every span that \<open>locate\<close> finds, from left to right, each search starting where
  the span before it ended. (The test of the lengths holds for every span that is not
  empty; it makes the definition total.)
\<close>

function strip_all :: "(string \<Rightarrow> (string \<times> 'a \<times> string) option) \<Rightarrow> string \<Rightarrow> string" where
  "strip_all locate s =
     (case locate s of
        None \<Rightarrow> s
      | Some (pre, x, post) \<Rightarrow>
          if length post < length s then pre @ strip_all locate post else pre @ post)"
  by pat_completeness auto
termination
  by (relation "measure (\<lambda>(locate, s). length s)") auto

declare strip_all.simps [simp del]

text \<open>The three removals that the specification names.\<close>

definition strip_fence :: "string \<Rightarrow> string" where
  "strip_fence s = (case fence_span s of None \<Rightarrow> s | Some (pre, inner, post) \<Rightarrow> pre @ post)"

definition strip_score_tags :: "string \<Rightarrow> string" where
  "strip_score_tags s = strip_all first_tag s"

definition strip_think :: "string \<Rightarrow> string" where
  "strip_think s = strip_all think_span s"

definition trigger_words :: "string list" where
  "trigger_words =
     [''security'', ''vulnerability'', ''performance'', ''optimization'', ''suggestion'',
      ''recommendation'']"

fun cursors :: "section_key \<Rightarrow> string list \<Rightarrow> section_key list" where
  \<comment> \<open>the cursor after each line, from the cursor \<open>c\<close>\<close>
  "cursors c [] = []"
| "cursors c (l # ls) = next_section c l # cursors (next_section c l) ls"

fun section_of :: "section_key \<Rightarrow> sections \<Rightarrow> string list" where
  "section_of Analysis secs = analysis secs"
| "section_of Suggestions secs = suggestions secs"
| "section_of Security secs = security secs"
| "section_of Performance secs = performance secs"

text \<open>The lines that fall under section \<open>k\<close>: those not blank whose cursor is \<open>k\<close>, trimmed.\<close>

definition lines_under :: "section_key \<Rightarrow> section_key \<Rightarrow> string list \<Rightarrow> string list" where
  "lines_under k c ls =
     map (\<lambda>(l, c'). trim l) (filter (\<lambda>(l, c'). c' = k \<and> trim l \<noteq> []) (zip ls (cursors c ls)))"

section \<open>Example inputs\<close>

definition example_file :: "string \<Rightarrow> FileWithContent" where
  "example_file n = \<lparr>name = n, path = ''src/'' @ n, content = ''print(1)'', extension = ''py''\<rparr>"

definition reply_with :: "json \<Rightarrow> fetch_result" where
  "reply_with c = Response 200 (Inr (JObj [(''choices'', JArr [JObj [(''message'', JObj [(''content'', c)])]])]))"

definition idle_state :: app_state where
  "idle_state = \<lparr>files = [], validationResults = [],
      streamingState = \<lparr>isAnalyzing = False, currentFile = [], currentStep = []\<rparr>\<rparr>"

definition scripted_judge :: "nat \<Rightarrow> poll_reply" where
  "scripted_judge k = (if k < 2 then PollReply 1 None None else PollReply 3 (Some ''OK'') None)"

definition crashing_judge :: "nat \<Rightarrow> poll_reply" where
  \<comment> \<open>one answer "in queue", then a run-time error: no \<open>stdout\<close>, a \<open>stderr\<close>\<close>
  "crashing_judge k =
     (if k < 1 then PollReply 1 None None else PollReply 11 None (Some ''NameError: x is not defined''))"

definition silent_judge :: "nat \<Rightarrow> poll_reply" where
  \<comment> \<open>a run that printed nothing: an empty \<open>stdout\<close> and \<open>stderr\<close> \<open>null\<close>\<close>
  "silent_judge k = PollReply 3 (Some []) None"

definition failing_judge :: "nat \<Rightarrow> poll_reply" where
  "failing_judge k = (if k < 2 then PollReply 1 None None else PollRejected)"

definition fresh_exec :: exec_state where
  "fresh_exec = \<lparr>executionOutput = [], timers = [], polls = 0, errorLog = []\<rparr>"

section \<open>Properties of the batch\<close>

lemma foldl_dispatch_files: "files (foldl dispatch st fs) = files st"
  by (induction fs arbitrary: st) (simp_all add: dispatch_def)

lemma foldl_dispatch_results: "validationResults (foldl dispatch st fs) = validationResults st"
  by (induction fs arbitrary: st) (simp_all add: dispatch_def)

lemma foldl_settle_files: "files (foldl (settle fs rs) st order) = files st"
  by (induction order arbitrary: st) (simp_all add: settle_def)

lemma foldl_settle_results:
  "validationResults (foldl (settle fs rs) st order) =
     validationResults st @
     map (\<lambda>i. processFile (fs ! i) (rs ! i)) (filter (\<lambda>i. i < length fs \<and> i < length rs) order)"
  by (induction order arbitrary: st) (simp_all add: settle_def)

lemma validateCode_files: "files (validateCode rs order st) = files st"
  by (simp add: validateCode_def Let_def foldl_settle_files foldl_dispatch_files)

lemma validateCode_results:
  "validationResults (validateCode rs order (handleFilesSelected fs st)) =
     map (\<lambda>i. processFile (fs ! i) (rs ! i)) (filter (\<lambda>i. i < length fs \<and> i < length rs) order)"
  by (simp add: validateCode_def handleFilesSelected_def Let_def foldl_settle_results
      foldl_dispatch_results)

lemma validateCode_results_again:
  "validationResults (validateCode rs order (validateCode rs' order' (handleFilesSelected fs st))) =
     map (\<lambda>i. processFile (fs ! i) (rs ! i)) (filter (\<lambda>i. i < length fs \<and> i < length rs) order)"
proof (cases "fs = []")
  case True
  then show ?thesis by (simp add: validateCode_def handleFilesSelected_def)
next
  case False
  let ?st = "validateCode rs' order' (handleFilesSelected fs st)"
  have "files ?st = fs" by (simp add: validateCode_files handleFilesSelected_def)
  with False show ?thesis
    by (simp add: validateCode_def [of rs order ?st] Let_def foldl_settle_results
        foldl_dispatch_results)
qed

lemma parse_response_identity:
  "parse_response f s = Inr v \<Longrightarrow> fileName v = name f \<and> filePath v = path f \<and> code v = content f"
  by (auto simp: parse_response_def split: sum.splits)

lemma processFile_try_identity:
  "processFile_try f r = Inr v \<Longrightarrow> fileName v = name f \<and> filePath v = path f \<and> code v = content f"
  by (auto simp: processFile_try_def split: fetch_result.splits if_splits sum.splits json.splits dest: parse_response_identity)

lemma processFile_identity:
  "fileName (processFile f r) = name f \<and> filePath (processFile f r) = path f \<and> code (processFile f r) = content f"
  by (cases "processFile_try f r") (auto simp: processFile_def dest: processFile_try_identity)

lemma permutation_in_range:
  assumes "mset order = mset [0..<n]"
  shows "\<forall>i \<in> set order. i < n"
proof -
  from assms have "set order = set [0..<n]" by (rule mset_eq_setD)
  then show ?thesis by simp
qed

lemma map_nth_zip:
  "length rs = length fs \<Longrightarrow>
   map (\<lambda>i. g (fs ! i) (rs ! i)) [0..<length fs] = map (\<lambda>(f, r). g f r) (zip fs rs)"
  by (rule nth_equalityI) simp_all

text \<open>
  C1. For every list of files selected and every way the requests settle (each request
  settles once, in any order), \<open>validateCode\<close> leaves exactly one result per file: the
  results are those of the files, in the order of settlement. A request that is rejected,
  answers with a status outside 200 to 299, or throws while its body is read, makes the
  \<open>try\<close> block fail, and a failed \<open>try\<close> block gives the result with score 0, no
  corrections and the text \<open>Error: \<close> followed by the description of the failure. What one
  request settles to changes the result of its own file only, and a second run on the same
  files starts from an empty list of results.
\<close>

theorem one_outcome_per_file:
  assumes "mset order = mset [0..<length fs]" and "length rs = length fs"
  shows "validationResults (validateCode rs order (handleFilesSelected fs st)) =
           map (\<lambda>i. processFile (fs ! i) (rs ! i)) order \<and>
         mset (validationResults (validateCode rs order (handleFilesSelected fs st))) =
           mset (map (\<lambda>(f, r). processFile f r) (zip fs rs)) \<and>
         length (validationResults (validateCode rs order (handleFilesSelected fs st))) = length fs \<and>
         (\<forall>f e. processFile_try f (Rejected e) = Inl e) \<and>
         (\<forall>f status body. \<not> response_ok status \<longrightarrow>
            processFile_try f (Response status body) =
              Inl (JsError (''Server error: '' @ show_nat status))) \<and>
         (\<forall>f status e. response_ok status \<longrightarrow> processFile_try f (Response status (Inl e)) = Inl e) \<and>
         (\<forall>f r e. processFile_try f r = Inl e \<longrightarrow>
            score (processFile f r) = 0 \<and> \<not> hasCorrections (processFile f r) \<and>
            result (processFile f r) =
              ''Error: '' @ (case e of JsError message \<Rightarrow> message | NonError \<Rightarrow> ''Failed to analyze code'')) \<and>
         (\<forall>j r'. validationResults (validateCode (rs[j := r']) order (handleFilesSelected fs st)) =
            map (\<lambda>i. if i = j then processFile (fs ! j) r' else processFile (fs ! i) (rs ! i)) order) \<and>
         (\<forall>rs' order'.
            validationResults
              (validateCode rs order (validateCode rs' order' (handleFilesSelected fs st))) =
            map (\<lambda>i. processFile (fs ! i) (rs ! i)) order)"
proof -
  let ?out = "validationResults (validateCode rs order (handleFilesSelected fs st))"
  let ?g = "\<lambda>i. processFile (fs ! i) (rs ! i)"
  from assms have range: "\<forall>i \<in> set order. i < length fs \<and> i < length rs"
    using permutation_in_range by fastforce
  then have keep: "filter (\<lambda>i. i < length fs \<and> i < length rs) order = order"
    by (simp add: filter_id_conv)
  have out: "?out = map ?g order"
    by (simp add: validateCode_results keep)
  have "mset (map ?g order) = image_mset ?g (mset order)" by simp
  also have "\<dots> = mset (map ?g [0..<length fs])" using assms(1) by simp
  also have "\<dots> = mset (map (\<lambda>(f, r). processFile f r) (zip fs rs))"
    using map_nth_zip [OF assms(2), of processFile] by simp
  finally have ms: "mset ?out = mset (map (\<lambda>(f, r). processFile f r) (zip fs rs))"
    using out by simp
  have len: "length ?out = length fs"
  proof -
    have "length order = size (mset order)" by simp
    also have "\<dots> = length fs" using assms(1) by simp
    finally show ?thesis using out by simp
  qed
  have rej: "\<forall>f e. processFile_try f (Rejected e) = Inl e"
    by (simp add: processFile_try_def)
  have st: "\<forall>f status body. \<not> response_ok status \<longrightarrow>
      processFile_try f (Response status body) = Inl (JsError (''Server error: '' @ show_nat status))"
    by (simp add: processFile_try_def)
  have body: "\<forall>f status e. response_ok status \<longrightarrow> processFile_try f (Response status (Inl e)) = Inl e"
    by (simp add: processFile_try_def)
  have syn: "\<forall>f r e. processFile_try f r = Inl e \<longrightarrow>
            score (processFile f r) = 0 \<and> \<not> hasCorrections (processFile f r) \<and>
            result (processFile f r) =
              ''Error: '' @ (case e of JsError message \<Rightarrow> message | NonError \<Rightarrow> ''Failed to analyze code'')"
    by (simp add: processFile_def)
  have iso: "validationResults (validateCode (rs[j := r']) order (handleFilesSelected fs st)) =
            map (\<lambda>i. if i = j then processFile (fs ! j) r' else processFile (fs ! i) (rs ! i)) order" for j r'
  proof -
    have "filter (\<lambda>i. i < length fs \<and> i < length (rs[j := r'])) order = order"
      using range by (simp add: filter_id_conv)
    then have "validationResults (validateCode (rs[j := r']) order (handleFilesSelected fs st)) =
        map (\<lambda>i. processFile (fs ! i) (rs[j := r'] ! i)) order"
      by (simp add: validateCode_results)
    also have "\<dots> = map (\<lambda>i. if i = j then processFile (fs ! j) r' else processFile (fs ! i) (rs ! i)) order"
      using range by (intro map_cong) (auto simp: nth_list_update)
    finally show ?thesis .
  qed
  have again: "validationResults
        (validateCode rs order (validateCode rs' order' (handleFilesSelected fs st))) =
      map (\<lambda>i. processFile (fs ! i) (rs ! i)) order" for rs' order'
    by (simp add: validateCode_results_again keep)
  from out ms len rej st body syn iso again show ?thesis by blast
qed


theorem one_outcome_per_file_witness:
  "mset [2, 0, 1] = mset [0..<length [example_file ''a.py'', example_file ''b.py'', example_file ''c.py'']] \<and>
   length [reply_with (JStr ''<SCORE:90> fine''), Rejected (JsError ''Failed to fetch''),
           reply_with (JStr ''<SCORE:10> poor'')] =
     length [example_file ''a.py'', example_file ''b.py'', example_file ''c.py''] \<and>
   validationResults
     (validateCode
        [reply_with (JStr ''<SCORE:90> fine''), Rejected (JsError ''Failed to fetch''),
         reply_with (JStr ''<SCORE:10> poor'')]
        [2, 0, 1]
        (handleFilesSelected [example_file ''a.py'', example_file ''b.py'', example_file ''c.py'']
           idle_state)) =
     [\<lparr>fileName = ''c.py'', filePath = ''src/c.py'', code = ''print(1)'',
       result = ''<SCORE:10> poor'', score = 10, correctedCode = None, hasCorrections = False\<rparr>,
      \<lparr>fileName = ''a.py'', filePath = ''src/a.py'', code = ''print(1)'',
       result = ''<SCORE:90> fine'', score = 90, correctedCode = None, hasCorrections = False\<rparr>,
      \<lparr>fileName = ''b.py'', filePath = ''src/b.py'', code = ''print(1)'',
       result = ''Error: Failed to fetch'', score = 0, correctedCode = None,
       hasCorrections = False\<rparr>]"
proof -
  let ?fs = "[example_file ''a.py'', example_file ''b.py'', example_file ''c.py'']"
  let ?rs = "[reply_with (JStr ''<SCORE:90> fine''), Rejected (JsError ''Failed to fetch''),
              reply_with (JStr ''<SCORE:10> poor'')]"
  have h1: "mset [2, 0, 1] = mset [0..<length ?fs]"
    by (simp add: upt_rec)
  have h2: "length ?rs = length ?fs"
    by simp
  from one_outcome_per_file [OF h1 h2, of idle_state]
  have "validationResults (validateCode ?rs [2, 0, 1] (handleFilesSelected ?fs idle_state)) =
          map (\<lambda>i. processFile (?fs ! i) (?rs ! i)) [2, 0, 1]"
    by blast
  also have "\<dots> =
     [\<lparr>fileName = ''c.py'', filePath = ''src/c.py'', code = ''print(1)'',
       result = ''<SCORE:10> poor'', score = 10, correctedCode = None, hasCorrections = False\<rparr>,
      \<lparr>fileName = ''a.py'', filePath = ''src/a.py'', code = ''print(1)'',
       result = ''<SCORE:90> fine'', score = 90, correctedCode = None, hasCorrections = False\<rparr>,
      \<lparr>fileName = ''b.py'', filePath = ''src/b.py'', code = ''print(1)'',
       result = ''Error: Failed to fetch'', score = 0, correctedCode = None,
       hasCorrections = False\<rparr>]"
    by code_simp
  finally show ?thesis using h1 h2 by blast
qed

text \<open>
  C10. On the success branch and on the failure branch alike, the result of a file carries
  the name, the path and the content of that file; every result of a batch belongs in this
  way to one of the files selected, and the list of files is the same after the batch.
\<close>

theorem outcome_carries_file:
  "fileName (processFile f r) = name f \<and> filePath (processFile f r) = path f \<and>
   code (processFile f r) = content f \<and>
   files (validateCode rs order st) = files st \<and>
   (\<forall>v \<in> set (validationResults (validateCode rs order (handleFilesSelected fs st))).
      \<exists>f \<in> set fs. fileName v = name f \<and> filePath v = path f \<and> code v = content f)"
proof -
  have "\<exists>f \<in> set fs. fileName v = name f \<and> filePath v = path f \<and> code v = content f"
    if "v \<in> set (validationResults (validateCode rs order (handleFilesSelected fs st)))" for v
  proof -
    from that obtain i where "i < length fs" and v: "v = processFile (fs ! i) (rs ! i)"
      by (auto simp: validateCode_results)
    then have "fs ! i \<in> set fs" by simp
    with v show ?thesis using processFile_identity by blast
  qed
  then show ?thesis by (simp add: processFile_identity validateCode_files)
qed

theorem outcome_carries_file_witness:
  "processFile (example_file ''b.py'') (Rejected NonError)
     \<in> set (validationResults (validateCode [reply_with (JStr ''<SCORE:90> fine''), Rejected NonError] [1, 0]
         (handleFilesSelected [example_file ''a.py'', example_file ''b.py''] idle_state))) \<and>
   (\<exists>f \<in> set [example_file ''a.py'', example_file ''b.py''].
      fileName (processFile (example_file ''b.py'') (Rejected NonError)) = name f \<and>
      filePath (processFile (example_file ''b.py'') (Rejected NonError)) = path f \<and>
      code (processFile (example_file ''b.py'') (Rejected NonError)) = content f)"
proof -
  have member: "processFile (example_file ''b.py'') (Rejected NonError)
     \<in> set (validationResults (validateCode [reply_with (JStr ''<SCORE:90> fine''), Rejected NonError] [1, 0]
         (handleFilesSelected [example_file ''a.py'', example_file ''b.py''] idle_state)))"
    by (simp add: validateCode_results)
  with outcome_carries_file [of "example_file ''a.py''" "Rejected NonError"
        "[reply_with (JStr ''<SCORE:90> fine''), Rejected NonError]" "[1, 0]" idle_state
        "[example_file ''a.py'', example_file ''b.py'']"]
  show ?thesis by blast
qed

section \<open>The fallback text\<close>

lemma parse_fallback:
  "parse_response f ''No response received.'' =
     Inr \<lparr>fileName = name f, filePath = path f, code = content f,
          result = ''No response received.'', score = 0, correctedCode = None,
          hasCorrections = False\<rparr>"
  by (simp add: parse_response_def extract_score_def extract_correctedCode_def SCORE_RX_def
      FENCE_RX_def FENCE_STRIP_RX_def match_at_def replace_first_def trim_def is_ws_def
      parseInt_def)

lemma cleaned_fallback: "cleanedResult ''No response received.'' = ''No response received.''"
  by code_simp

lemma or_else_fallback: "\<not> truthy v \<Longrightarrow> or_else v d = d"
  by (cases v) auto

text \<open>
  C8. When the request succeeds and \<open>data?.choices?.[0]?.message?.content\<close> is falsy, as it
  is when it is missing (\<open>undefined\<close>) and when it is the empty string, the \<open>try\<close> block does
  not fail: it interprets the text \<open>No response received.\<close>, and the result has that text
  as its narrative, score 0 and no corrections.
\<close>

theorem missing_content_falls_back:
  assumes "response_ok status" and "\<not> truthy (response_content data)"
  shows "\<not> truthy None \<and> \<not> truthy (Some (JStr [])) \<and>
         processFile_try f (Response status (Inr data)) =
           Inr \<lparr>fileName = name f, filePath = path f, code = content f,
                result = ''No response received.'', score = 0, correctedCode = None,
                hasCorrections = False\<rparr> \<and>
         processFile f (Response status (Inr data)) =
           \<lparr>fileName = name f, filePath = path f, code = content f,
            result = ''No response received.'', score = 0, correctedCode = None,
            hasCorrections = False\<rparr> \<and>
         cleanedResult (result (processFile f (Response status (Inr data)))) = ''No response received.''"
proof -
  from assms(2) have "or_else (response_content data) (JStr ''No response received.'') =
      JStr ''No response received.''"
    by (rule or_else_fallback)
  with assms(1) have tried: "processFile_try f (Response status (Inr data)) =
      parse_response f ''No response received.''"
    by (simp add: processFile_try_def)
  then show ?thesis
    by (simp add: processFile_def parse_fallback cleaned_fallback)
qed

theorem missing_content_falls_back_witness:
  "response_ok 200 \<and>
   response_content (JObj [(''choices'', JArr [])]) = None \<and>
   response_content (JObj [(''choices'', JArr [JObj [(''message'', JObj [(''content'', JStr [])])]])]) = Some (JStr []) \<and>
   processFile (example_file ''a.py'') (Response 200 (Inr (JObj [(''choices'', JArr [])]))) =
     \<lparr>fileName = ''a.py'', filePath = ''src/a.py'', code = ''print(1)'',
      result = ''No response received.'', score = 0, correctedCode = None, hasCorrections = False\<rparr> \<and>
   processFile (example_file ''a.py'') (reply_with (JStr [])) =
     \<lparr>fileName = ''a.py'', filePath = ''src/a.py'', code = ''print(1)'',
      result = ''No response received.'', score = 0, correctedCode = None, hasCorrections = False\<rparr>"
proof -
  have ok: "response_ok 200" by (simp add: response_ok_def)
  have c1: "response_content (JObj [(''choices'', JArr [])]) = None"
    by (simp add: response_content_def)
  have c2: "response_content (JObj [(''choices'', JArr [JObj [(''message'', JObj [(''content'', JStr [])])]])]) = Some (JStr [])"
    by (simp add: response_content_def)
  have f1: "\<not> truthy (response_content (JObj [(''choices'', JArr [])]))"
    by (simp add: c1)
  have f2: "\<not> truthy (response_content (JObj [(''choices'', JArr [JObj [(''message'', JObj [(''content'', JStr [])])]])]))"
    by (simp add: c2)
  from missing_content_falls_back [OF ok f1, of "example_file ''a.py''"]
    missing_content_falls_back [OF ok f2, of "example_file ''a.py''"]
  show ?thesis using ok c1 c2 by (simp add: example_file_def reply_with_def)
qed

section \<open>Properties of the execution poller\<close>

lemma checkResult_non_terminal:
  "non_terminal (judge k) \<Longrightarrow>
   checkResult judge k st =
     checkResult judge (Suc k) (st\<lparr>polls := Suc (polls st), timers := timers st @ [1000]\<rparr>)"
  by (subst checkResult.simps) (simp add: non_terminal_def Let_def split: poll_reply.splits)

lemma checkResult_terminal:
  "judge k = PollReply status_id out err \<Longrightarrow> 2 < status_id \<Longrightarrow>
   checkResult judge k st =
     Some (st\<lparr>polls := Suc (polls st), executionOutput := stdout_or_error out err\<rparr>)"
  by (subst checkResult.simps) (simp add: Let_def)

lemma checkResult_rejected:
  "judge k = PollRejected \<Longrightarrow> checkResult judge k st = Some (st\<lparr>polls := Suc (polls st)\<rparr>)"
  by (subst checkResult.simps) (simp add: Let_def)

lemma checkResult_skip:
  "\<forall>i<n. non_terminal (judge (k + i)) \<Longrightarrow>
   checkResult judge k st =
     checkResult judge (k + n) (st\<lparr>polls := polls st + n, timers := timers st @ replicate n 1000\<rparr>)"
proof (induction n arbitrary: k st)
  case 0
  then show ?case by simp
next
  case (Suc n)
  from Suc.prems have first: "non_terminal (judge k)" by (metis add.right_neutral zero_less_Suc)
  from Suc.prems have rest: "\<forall>i<n. non_terminal (judge (Suc k + i))" by auto
  show ?case
    by (simp add: checkResult_non_terminal [of judge k, OF first] Suc.IH [of "Suc k", OF rest]
        replicate_append_same)
qed

lemma checkResult_origin:
  assumes "checkResult judge k st = Some st'"
  shows "errorLog st' = errorLog st \<and>
   (executionOutput st' = executionOutput st \<or>
    (\<exists>j status_id out err. judge j = PollReply status_id out err \<and> 2 < status_id \<and>
       executionOutput st' = stdout_or_error out err))"
proof (rule checkResult.raw_induct [where P = "\<lambda>judge k st st'. errorLog st' = errorLog st \<and>
   (executionOutput st' = executionOutput st \<or>
    (\<exists>j status_id out err. judge j = PollReply status_id out err \<and> 2 < status_id \<and>
       executionOutput st' = stdout_or_error out err))", OF _ assms])
  fix cr :: "(nat \<Rightarrow> poll_reply) \<Rightarrow> nat \<Rightarrow> exec_state \<Rightarrow> exec_state option"
  fix judge k st st'
  assume IH: "\<And>judge k st st'. cr judge k st = Some st' \<Longrightarrow> errorLog st' = errorLog st \<and>
   (executionOutput st' = executionOutput st \<or>
    (\<exists>j status_id out err. judge j = PollReply status_id out err \<and> 2 < status_id \<and>
       executionOutput st' = stdout_or_error out err))"
  assume body: "(let st1 = st\<lparr>polls := Suc (polls st)\<rparr>
      in case judge k of
           PollRejected \<Rightarrow> Some st1
         | PollReply status_id out err \<Rightarrow>
             if status_id \<le> 2
             then cr judge (Suc k) (st1\<lparr>timers := timers st1 @ [1000]\<rparr>)
             else Some (st1\<lparr>executionOutput := stdout_or_error out err\<rparr>)) = Some st'"
  show "errorLog st' = errorLog st \<and>
   (executionOutput st' = executionOutput st \<or>
    (\<exists>j status_id out err. judge j = PollReply status_id out err \<and> 2 < status_id \<and>
       executionOutput st' = stdout_or_error out err))"
  proof (cases "judge k")
    case PollRejected
    with body show ?thesis by (auto simp: Let_def)
  next
    case (PollReply status_id out err)
    show ?thesis
    proof (cases "status_id \<le> 2")
      case True
      with PollReply body
      have "cr judge (Suc k) (st\<lparr>polls := Suc (polls st), timers := timers st @ [1000]\<rparr>) = Some st'"
        by (simp add: Let_def)
      from IH [OF this] show ?thesis by simp
    next
      case False
      with PollReply body have st': "st' = st\<lparr>polls := Suc (polls st), executionOutput := stdout_or_error out err\<rparr>"
        by (simp add: Let_def)
      with PollReply False
      have "judge k = PollReply status_id out err \<and> 2 < status_id \<and>
          executionOutput st' = stdout_or_error out err"
        by simp
      then have "\<exists>j status_id out err. judge j = PollReply status_id out err \<and> 2 < status_id \<and>
          executionOutput st' = stdout_or_error out err"
        by blast
      moreover from st' have "errorLog st' = errorLog st" by simp
      ultimately show ?thesis by blast
    qed
  qed
qed

text \<open>
  C7. A status request answered with \<open>status.id \<le> 2\<close> starts exactly one timer of 1000 ms
  for the next request. One answered with \<open>status.id > 2\<close> ends the polling and starts no
  timer: it writes \<open>stdout\<close> when that is a non-empty string; when \<open>stdout\<close> is \<open>null\<close> or
  empty it writes \<open>Error: \<close> followed by the text of \<open>stderr\<close>, which is \<open>null\<close> for a
  \<open>stderr\<close> that is \<open>null\<close>. After \<open>n\<close> answers of the first kind and one of the second
  the poller has sent \<open>n + 1\<close> requests and started \<open>n\<close> timers, and the output is that text.
\<close>

theorem poll_until_terminal:
  assumes "\<forall>i<n. non_terminal (judge i)"
    and "judge n = PollReply status_id out err" and "2 < status_id"
  shows "(\<forall>k s. non_terminal (judge k) \<longrightarrow>
            checkResult judge k s =
              checkResult judge (Suc k) (s\<lparr>polls := Suc (polls s), timers := timers s @ [1000]\<rparr>)) \<and>
         (\<forall>s. checkResult judge n s =
              Some (s\<lparr>polls := Suc (polls s), executionOutput := stdout_or_error out err\<rparr>)) \<and>
         checkResult judge 0 st =
           Some (st\<lparr>polls := polls st + Suc n, timers := timers st @ replicate n 1000,
                   executionOutput := stdout_or_error out err\<rparr>) \<and>
         (\<forall>text. out = Some text \<and> text \<noteq> [] \<longrightarrow> stdout_or_error out err = text) \<and>
         (out = None \<or> out = Some [] \<longrightarrow>
            stdout_or_error out err = ''Error: '' @ (case err of None \<Rightarrow> ''null'' | Some e \<Rightarrow> e)) \<and>
         (\<forall>e. (out = None \<or> out = Some []) \<and> err = Some e \<longrightarrow>
            checkResult judge 0 st =
              Some (st\<lparr>polls := polls st + Suc n, timers := timers st @ replicate n 1000,
                      executionOutput := ''Error: '' @ e\<rparr>)) \<and>
         (\<forall>text. out = Some text \<and> text \<noteq> [] \<longrightarrow>
            checkResult judge 0 st =
              Some (st\<lparr>polls := polls st + Suc n, timers := timers st @ replicate n 1000,
                      executionOutput := text\<rparr>))"
proof -
  have step: "\<forall>k s. non_terminal (judge k) \<longrightarrow>
            checkResult judge k s =
              checkResult judge (Suc k) (s\<lparr>polls := Suc (polls s), timers := timers s @ [1000]\<rparr>)"
    using checkResult_non_terminal by blast
  have final: "checkResult judge n s =
      Some (s\<lparr>polls := Suc (polls s), executionOutput := stdout_or_error out err\<rparr>)" for s
    using assms(2,3) by (rule checkResult_terminal)
  from assms(1) have "\<forall>i<n. non_terminal (judge (0 + i))" by simp
  from checkResult_skip [OF this, of st]
  have run: "checkResult judge 0 st =
           Some (st\<lparr>polls := polls st + Suc n, timers := timers st @ replicate n 1000,
                   executionOutput := stdout_or_error out err\<rparr>)"
    by (simp add: final)
  have out_text: "\<forall>text. out = Some text \<and> text \<noteq> [] \<longrightarrow> stdout_or_error out err = text"
    by auto
  have err_text: "out = None \<or> out = Some [] \<longrightarrow>
      stdout_or_error out err = ''Error: '' @ (case err of None \<Rightarrow> ''null'' | Some e \<Rightarrow> e)"
    by (cases err) auto
  have run_err: "\<forall>e. (out = None \<or> out = Some []) \<and> err = Some e \<longrightarrow>
            checkResult judge 0 st =
              Some (st\<lparr>polls := polls st + Suc n, timers := timers st @ replicate n 1000,
                      executionOutput := ''Error: '' @ e\<rparr>)"
    using run by auto
  have run_out: "\<forall>text. out = Some text \<and> text \<noteq> [] \<longrightarrow>
            checkResult judge 0 st =
              Some (st\<lparr>polls := polls st + Suc n, timers := timers st @ replicate n 1000,
                      executionOutput := text\<rparr>)"
    using run by auto
  from step final run out_text err_text run_err run_out show ?thesis by blast
qed

theorem poll_until_terminal_witness:
  "non_terminal (scripted_judge 0) \<and> non_terminal (scripted_judge 1) \<and>
   scripted_judge 2 = PollReply 3 (Some ''OK'') None \<and>
   checkResult scripted_judge 0 fresh_exec =
     Some \<lparr>executionOutput = ''OK'', timers = [1000, 1000], polls = 3, errorLog = []\<rparr> \<and>
   non_terminal (crashing_judge 0) \<and>
   crashing_judge 1 = PollReply 11 None (Some ''NameError: x is not defined'') \<and>
   checkResult crashing_judge 0 fresh_exec =
     Some \<lparr>executionOutput = ''Error: NameError: x is not defined'', timers = [1000], polls = 2,
           errorLog = []\<rparr> \<and>
   silent_judge 0 = PollReply 3 (Some []) None \<and>
   checkResult silent_judge 0 fresh_exec =
     Some \<lparr>executionOutput = ''Error: null'', timers = [], polls = 1, errorLog = []\<rparr>"
proof -
  have a: "\<forall>i<2. non_terminal (scripted_judge i)"
    by (simp add: scripted_judge_def non_terminal_def)
  have b: "scripted_judge 2 = PollReply 3 (Some ''OK'') None"
    by (simp add: scripted_judge_def)
  have c: "(2::int) < 3" by simp
  from poll_until_terminal [OF a b c, of fresh_exec]
  have ok: "checkResult scripted_judge 0 fresh_exec =
     Some \<lparr>executionOutput = ''OK'', timers = [1000, 1000], polls = 3, errorLog = []\<rparr>"
    by (simp add: fresh_exec_def numeral_2_eq_2)
  have a': "\<forall>i<1. non_terminal (crashing_judge i)"
    by (simp add: crashing_judge_def non_terminal_def)
  have b': "crashing_judge 1 = PollReply 11 None (Some ''NameError: x is not defined'')"
    by (simp add: crashing_judge_def)
  have c': "(2::int) < 11" by simp
  from poll_until_terminal [OF a' b' c', of fresh_exec]
  have crash: "checkResult crashing_judge 0 fresh_exec =
     Some \<lparr>executionOutput = ''Error: NameError: x is not defined'', timers = [1000], polls = 2,
           errorLog = []\<rparr>"
    by (simp add: fresh_exec_def)
  have a'': "\<forall>i<0. non_terminal (silent_judge i)" by simp
  have b'': "silent_judge 0 = PollReply 3 (Some []) None"
    by (simp add: silent_judge_def)
  from poll_until_terminal [OF a'' b'' c, of fresh_exec]
  have silent: "checkResult silent_judge 0 fresh_exec =
     Some \<lparr>executionOutput = ''Error: null'', timers = [], polls = 1, errorLog = []\<rparr>"
    by (simp add: fresh_exec_def)
  from a a' b b' b'' ok crash silent show ?thesis by simp
qed

text \<open>
  C9. The \<open>catch\<close> block of \<open>runCode\<close> (which logs and writes \<open>Execution failed.\<close>) runs when
  the \<open>try\<close> block fails, and the \<open>try\<close> block holds the submission only. When the
  submission succeeds the \<open>catch\<close> block never runs, whatever the status requests do: a
  rejected status request ends the polling with no timer pending and leaves the output
  \<open>Running...\<close>, and the output is always that text or what a final answer of the judge
  gave.
\<close>

theorem poll_failure_not_caught:
  assumes "\<not> submit_failed submit"
  shows "(\<forall>s. submit_failed s \<longrightarrow>
            runCode s judge st =
              Some (st\<lparr>executionOutput := ''Execution failed.'',
                      errorLog := errorLog st @ [''Error running code:'']\<rparr>)) \<and>
         (\<forall>n. (\<forall>i<n. non_terminal (judge i)) \<and> judge n = PollRejected \<longrightarrow>
            runCode submit judge st =
              Some (st\<lparr>executionOutput := ''Running...'', polls := polls st + Suc n,
                      timers := timers st @ replicate (Suc n) 1000\<rparr>)) \<and>
         (\<forall>st'. runCode submit judge st = Some st' \<longrightarrow>
            errorLog st' = errorLog st \<and>
            (executionOutput st' = ''Running...'' \<or>
             (\<exists>j status_id out err. judge j = PollReply status_id out err \<and> 2 < status_id \<and>
                executionOutput st' = stdout_or_error out err)))"
proof -
  let ?st1 = "st\<lparr>executionOutput := ''Running...'', timers := timers st @ [1000]\<rparr>"
  from assms have run: "runCode submit judge st = checkResult judge 0 ?st1"
    by (auto simp: runCode_def submit_failed_def Let_def split: submit_reply.splits option.splits json.splits)
  have failed: "runCode s judge st =
              Some (st\<lparr>executionOutput := ''Execution failed.'',
                      errorLog := errorLog st @ [''Error running code:'']\<rparr>)"
    if "submit_failed s" for s
    using that
    by (auto simp: runCode_def submit_failed_def Let_def split: submit_reply.splits option.splits json.splits)
  have rejected: "runCode submit judge st =
              Some (st\<lparr>executionOutput := ''Running...'', polls := polls st + Suc n,
                      timers := timers st @ replicate (Suc n) 1000\<rparr>)"
    if "\<forall>i<n. non_terminal (judge i)" and "judge n = PollRejected" for n
  proof -
    from that(1) have "\<forall>i<n. non_terminal (judge (0 + i))" by simp
    from checkResult_skip [OF this, of ?st1] that(2) show ?thesis
      by (simp add: run checkResult_rejected replicate_append_same)
  qed
  have origin: "errorLog st' = errorLog st \<and>
            (executionOutput st' = ''Running...'' \<or>
             (\<exists>j status_id out err. judge j = PollReply status_id out err \<and> 2 < status_id \<and>
                executionOutput st' = stdout_or_error out err))"
    if "runCode submit judge st = Some st'" for st'
    using checkResult_origin [of judge 0 ?st1 st'] that by (simp add: run)
  from failed rejected origin show ?thesis by blast
qed

theorem poll_failure_not_caught_witness:
  "\<not> submit_failed (SubmitReply (Some (JObj [(''token'', JStr ''t0'')]))) \<and>
   submit_failed SubmitRejected \<and>
   runCode SubmitRejected failing_judge fresh_exec =
     Some \<lparr>executionOutput = ''Execution failed.'', timers = [], polls = 0,
           errorLog = [''Error running code:'']\<rparr> \<and>
   non_terminal (failing_judge 0) \<and> non_terminal (failing_judge 1) \<and>
   failing_judge 2 = PollRejected \<and>
   runCode (SubmitReply (Some (JObj [(''token'', JStr ''t0'')]))) failing_judge fresh_exec =
     Some \<lparr>executionOutput = ''Running...'', timers = [1000, 1000, 1000], polls = 3, errorLog = []\<rparr>"
proof -
  have ok: "\<not> submit_failed (SubmitReply (Some (JObj [(''token'', JStr ''t0'')])))"
    by (simp add: submit_failed_def)
  have bad: "submit_failed SubmitRejected"
    by (simp add: submit_failed_def)
  have a: "\<forall>i<2. non_terminal (failing_judge i)"
    by (simp add: failing_judge_def non_terminal_def)
  have b: "failing_judge 2 = PollRejected"
    by (simp add: failing_judge_def)
  note inst = poll_failure_not_caught [OF ok, of failing_judge fresh_exec]
  from inst bad have "runCode SubmitRejected failing_judge fresh_exec =
     Some \<lparr>executionOutput = ''Execution failed.'', timers = [], polls = 0,
           errorLog = [''Error running code:'']\<rparr>"
    by (simp add: fresh_exec_def)
  moreover from inst a b
  have "runCode (SubmitReply (Some (JObj [(''token'', JStr ''t0'')]))) failing_judge fresh_exec =
     Some \<lparr>executionOutput = ''Running...'', timers = [1000, 1000, 1000], polls = 3, errorLog = []\<rparr>"
    by (simp add: fresh_exec_def numeral_2_eq_2 numeral_3_eq_3)
  ultimately show ?thesis using ok bad a b by simp
qed


section \<open>Properties of the classification\<close>

lemma section_of_push:
  "section_of k (push c l secs) = section_of k secs @ (if c = k then [l] else [])"
  by (cases k; cases c) simp_all

lemma foldl_classify:
  "section_of k (snd (foldl classify_line (c, secs) ls)) = section_of k secs @ lines_under k c ls"
proof (induction ls arbitrary: c secs)
  case Nil
  then show ?case by (simp add: lines_under_def)
next
  case (Cons l ls)
  have "foldl classify_line (c, secs) (l # ls) =
        foldl classify_line (next_section c l,
          if trim l \<noteq> [] then push (next_section c l) (trim l) secs else secs) ls"
    by (simp add: classify_line_def Let_def)
  then show ?case
    by (simp add: Cons.IH section_of_push lines_under_def)
qed

text \<open>
  C5, as amended. The lines are scanned in order with one cursor that starts at
  \<open>analysis\<close>. A line whose lower-case form contains \<open>security\<close> or \<open>vulnerability\<close> moves the
  cursor to \<open>security\<close>; failing that, \<open>performance\<close> or \<open>optimization\<close> move it to
  \<open>performance\<close>; failing that, \<open>suggestion\<close> or \<open>recommendation\<close> move it to \<open>suggestions\<close>;
  any other line leaves it where it is. Every line that is not blank is appended, trimmed,
  to the section of the cursor as the line left it. For the lines \<open>intro\<close>,
  \<open>Security issue found\<close>, \<open>still here\<close>, \<open>Suggest refactor\<close> the result is \<open>analysis = [intro]\<close>
  and \<open>security\<close> holding the other three lines: \<open>Suggest refactor\<close> contains neither
  \<open>suggestion\<close> nor \<open>recommendation\<close>.
\<close>

theorem sticky_classification:
  "section_of k (classify_lines ls) = lines_under k Analysis ls \<and>
   next_section c l =
     (if includes_str (toLowerCase l) ''security'' \<or> includes_str (toLowerCase l) ''vulnerability''
      then Security
      else if includes_str (toLowerCase l) ''performance'' \<or> includes_str (toLowerCase l) ''optimization''
      then Performance
      else if includes_str (toLowerCase l) ''suggestion'' \<or> includes_str (toLowerCase l) ''recommendation''
      then Suggestions
      else c) \<and>
   classify_lines [''intro'', ''Security issue found'', ''still here'', ''Suggest refactor''] =
     \<lparr>analysis = [''intro''], suggestions = [],
      security = [''Security issue found'', ''still here'', ''Suggest refactor''],
      performance = []\<rparr> \<and>
   classify_lines [''intro'', ''Security issue found'', ''  still here'', ''Suggestion: refactor''] =
     \<lparr>analysis = [''intro''], suggestions = [''Suggestion: refactor''],
      security = [''Security issue found'', ''still here''],
      performance = []\<rparr>"
proof -
  have "section_of k (classify_lines ls) = lines_under k Analysis ls"
    by (cases k) (simp_all add: classify_lines_def foldl_classify)
  moreover have "next_section c l =
     (if includes_str (toLowerCase l) ''security'' \<or> includes_str (toLowerCase l) ''vulnerability''
      then Security
      else if includes_str (toLowerCase l) ''performance'' \<or> includes_str (toLowerCase l) ''optimization''
      then Performance
      else if includes_str (toLowerCase l) ''suggestion'' \<or> includes_str (toLowerCase l) ''recommendation''
      then Suggestions
      else c)"
    by (simp add: next_section_def Let_def)
  moreover have "classify_lines [''intro'', ''Security issue found'', ''still here'', ''Suggest refactor''] =
     \<lparr>analysis = [''intro''], suggestions = [],
      security = [''Security issue found'', ''still here'', ''Suggest refactor''],
      performance = []\<rparr>"
    by code_simp
  moreover have "classify_lines [''intro'', ''Security issue found'', ''  still here'', ''Suggestion: refactor''] =
     \<lparr>analysis = [''intro''], suggestions = [''Suggestion: refactor''],
      security = [''Security issue found'', ''still here''],
      performance = []\<rparr>"
    by code_simp
  ultimately show ?thesis by blast
qed

text \<open>
  C5, as stated, expects \<open>Suggest refactor\<close> under \<open>suggestions\<close>; the code leaves that
  section empty.
\<close>

theorem sticky_example_counterexample:
  "\<not> (analysis (classify_lines [''intro'', ''Security issue found'', ''still here'', ''Suggest refactor'']) = [''intro''] \<and>
      security (classify_lines [''intro'', ''Security issue found'', ''still here'', ''Suggest refactor'']) =
        [''Security issue found'', ''still here''] \<and>
      suggestions (classify_lines [''intro'', ''Security issue found'', ''still here'', ''Suggest refactor'']) =
        [''Suggest refactor''])"
proof -
  have "suggestions (classify_lines [''intro'', ''Security issue found'', ''still here'', ''Suggest refactor'']) = []"
    by code_simp
  then show ?thesis by simp
qed

section \<open>Properties of the matcher\<close>

lemma run_Seq_Lit:
  "run (Seq (Lit l) b) s = (if starts_with l s then run b (drop (length l) s) else [])"
  by simp

lemma run_Seq_then_Lit:
  "run (Seq a (Lit l)) s =
     map (\<lambda>(c, r). (c, drop (length l) r)) (filter (\<lambda>(c, r). starts_with l r) (run a s))"
proof -
  have "concat (map (\<lambda>(c1, s1). map (\<lambda>(c2, s2). (c1 @ c2, s2)) (run (Lit l) s1)) xs) =
        map (\<lambda>(c, r). (c, drop (length l) r)) (filter (\<lambda>(c, r). starts_with l r) xs)" for xs
    by (induction xs) auto
  then show ?thesis by simp
qed

lemma filter_lazy_rests:
  assumes "\<not> in_class c y"
  shows "filter (starts_with (y # ys)) (lazy_rests c t) =
         (if starts_with (y # ys) (dropWhile (in_class c) t) then [dropWhile (in_class c) t] else [])"
  using assms by (induction t) auto

lemma filter_tl_lazy_rests:
  assumes "\<not> in_class c y"
  shows "filter (starts_with (y # ys)) (tl (lazy_rests c t)) =
         (if takeWhile (in_class c) t \<noteq> [] \<and> starts_with (y # ys) (dropWhile (in_class c) t)
          then [dropWhile (in_class c) t] else [])"
  using assms by (cases t) (auto simp: filter_lazy_rests)

lemma filter_snd_map:
  "filter (\<lambda>(c, r). P r) (map (\<lambda>r. (g r, r)) xs) = map (\<lambda>r. (g r, r)) (filter P xs)"
  by (induction xs) auto

lemma take_takeWhile:
  "take (length t - length (dropWhile P t)) t = takeWhile P t"
  by (metis append_eq_conv_conj length_append add_diff_cancel_right' takeWhile_dropWhile_id)

lemma run_Plus: "run (Plus c) t = map (\<lambda>r. ([], r)) (rev (tl (lazy_rests c t)))"
  by simp

lemma run_Group_Plus:
  "run (Group (Plus c)) t =
     map (\<lambda>r. ([Some (take (length t - length r) t)], r)) (rev (tl (lazy_rests c t)))"
  by (simp add: comp_def)

lemma run_Plus_Lit:
  assumes "\<not> in_class c y"
  shows "run (Seq (Plus c) (Lit (y # ys))) t =
         (if takeWhile (in_class c) t \<noteq> [] \<and> starts_with (y # ys) (dropWhile (in_class c) t)
          then [([], drop (length (y # ys)) (dropWhile (in_class c) t))] else [])"
proof -
  have "run (Seq (Plus c) (Lit (y # ys))) t =
      map (\<lambda>(c, r). (c, drop (length (y # ys)) r))
        (filter (\<lambda>(c, r). starts_with (y # ys) r) (run (Plus c) t))"
    by (rule run_Seq_then_Lit)
  also have "\<dots> = map (\<lambda>(c, r). (c, drop (length (y # ys)) r))
        (map (\<lambda>r. ([], r)) (rev (filter (starts_with (y # ys)) (tl (lazy_rests c t)))))"
    by (simp only: run_Plus filter_snd_map rev_filter)
  finally show ?thesis
    by (simp add: filter_tl_lazy_rests [OF assms] del: starts_with.simps run.simps)
qed

lemma run_Group_Plus_Lit:
  assumes "\<not> in_class c y"
  shows "run (Seq (Group (Plus c)) (Lit (y # ys))) t =
         (if takeWhile (in_class c) t \<noteq> [] \<and> starts_with (y # ys) (dropWhile (in_class c) t)
          then [([Some (takeWhile (in_class c) t)], drop (length (y # ys)) (dropWhile (in_class c) t))]
          else [])"
proof -
  have "run (Seq (Group (Plus c)) (Lit (y # ys))) t =
      map (\<lambda>(c, r). (c, drop (length (y # ys)) r))
        (filter (\<lambda>(c, r). starts_with (y # ys) r) (run (Group (Plus c)) t))"
    by (rule run_Seq_then_Lit)
  also have "\<dots> = map (\<lambda>(c, r). (c, drop (length (y # ys)) r))
        (map (\<lambda>r. ([Some (take (length t - length r) t)], r))
           (rev (filter (starts_with (y # ys)) (tl (lazy_rests c t)))))"
    by (simp only: run_Group_Plus filter_snd_map rev_filter)
  finally show ?thesis
    by (simp add: filter_tl_lazy_rests [OF assms] take_takeWhile del: starts_with.simps run.simps)
qed


subsection \<open>The score tag\<close>

lemma takeWhile_all: "list_all P xs \<Longrightarrow> \<not> P y \<Longrightarrow> takeWhile P (xs @ y # ys) = xs"
  by (induction xs) auto

lemma dropWhile_all: "list_all P xs \<Longrightarrow> \<not> P y \<Longrightarrow> dropWhile P (xs @ y # ys) = y # ys"
  by (induction xs) auto

lemma list_all_takeWhile: "list_all P (takeWhile P xs)"
  by (induction xs) auto

lemma not_digit_gt: "\<not> in_class Digit (CHR ''>'')"
  by (simp add: is_digit_def)

lemma run_SCORE_RX:
  "run SCORE_RX s =
     (if starts_with ''<SCORE:'' s \<and> takeWhile is_digit (drop 7 s) \<noteq> [] \<and>
         starts_with ''>'' (dropWhile is_digit (drop 7 s))
      then [([Some (takeWhile is_digit (drop 7 s))], drop 1 (dropWhile is_digit (drop 7 s)))]
      else [])"
proof -
  have cls: "in_class Digit = is_digit" by (rule ext) simp
  have len: "length ''<SCORE:'' = 7" "length ''>'' = 1" by simp_all
  show ?thesis
    unfolding SCORE_RX_def run_Seq_Lit run_Group_Plus_Lit [OF not_digit_gt] cls len
    by simp
qed

lemma match_at_SCORE_RX:
  "match_at SCORE_RX s = Some m \<longleftrightarrow>
     (\<exists>ds rest. s = score_tag ds @ rest \<and> digits ds \<and>
        m = \<lparr>before_match = [], matched = score_tag ds, groups = [Some ds], after_match = rest\<rparr>)"
proof
  assume "match_at SCORE_RX s = Some m"
  then have sw: "starts_with ''<SCORE:'' s" and ne: "takeWhile is_digit (drop 7 s) \<noteq> []"
    and gt: "starts_with ''>'' (dropWhile is_digit (drop 7 s))"
    and m: "m = \<lparr>before_match = [],
          matched = take (length s - length (drop 1 (dropWhile is_digit (drop 7 s)))) s,
          groups = [Some (takeWhile is_digit (drop 7 s))],
          after_match = drop 1 (dropWhile is_digit (drop 7 s))\<rparr>"
    by (auto simp: match_at_def run_SCORE_RX simp del: starts_with.simps split: if_splits)
  let ?ds = "takeWhile is_digit (drop 7 s)"
  let ?rest = "drop 1 (dropWhile is_digit (drop 7 s))"
  from sw obtain t where s: "s = ''<SCORE:'' @ t" by (auto simp: starts_with_iff)
  from gt obtain r where r: "dropWhile is_digit (drop 7 s) = ''>'' @ r" by (auto simp: starts_with_iff)
  have "t = ?ds @ dropWhile is_digit (drop 7 s)" using s by simp
  with r have t: "t = ?ds @ ''>'' @ ?rest" by simp
  with s have split: "s = score_tag ?ds @ ?rest" by (simp add: score_tag_def)
  then have "take (length s - length ?rest) s = score_tag ?ds"
    by (metis append_eq_conv_conj length_append add_diff_cancel_right')
  with m split ne show "\<exists>ds rest. s = score_tag ds @ rest \<and> digits ds \<and>
        m = \<lparr>before_match = [], matched = score_tag ds, groups = [Some ds], after_match = rest\<rparr>"
    by (auto simp: digits_def list_all_takeWhile)
next
  assume "\<exists>ds rest. s = score_tag ds @ rest \<and> digits ds \<and>
        m = \<lparr>before_match = [], matched = score_tag ds, groups = [Some ds], after_match = rest\<rparr>"
  then obtain ds rest where s: "s = score_tag ds @ rest" and ds: "digits ds"
    and m: "m = \<lparr>before_match = [], matched = score_tag ds, groups = [Some ds], after_match = rest\<rparr>"
    by blast
  have drop7: "drop 7 s = ds @ CHR ''>'' # rest" using s by (simp add: score_tag_def)
  have nd: "\<not> is_digit (CHR ''>'')" by (simp add: is_digit_def)
  from ds have tw: "takeWhile is_digit (drop 7 s) = ds" and dw: "dropWhile is_digit (drop 7 s) = CHR ''>'' # rest"
    unfolding drop7 by (simp_all add: digits_def takeWhile_all dropWhile_all nd)
  have sw: "starts_with ''<SCORE:'' s" using s by (simp add: score_tag_def)
  have "take (length s - length rest) s = score_tag ds" using s by simp
  with ds show "match_at SCORE_RX s = Some m"
    by (simp add: match_at_def run_SCORE_RX sw tw dw m digits_def)
qed


lemma rx_exec_found:
  assumes "match_at r u = Some m"
    and "\<forall>i<length pre. match_at r (drop i (pre @ u)) = None"
  shows "rx_exec r (pre @ u) = Some (m\<lparr>before_match := pre\<rparr>)"
  using assms(2)
proof (induction pre)
  case Nil
  from match_at_split [OF assms(1)] have "m\<lparr>before_match := []\<rparr> = m" by simp
  with assms(1) show ?case by (cases u) simp_all
next
  case (Cons p ps)
  from Cons.prems have head: "match_at r (p # ps @ u) = None" by fastforce
  have "\<forall>i<length ps. match_at r (drop i (ps @ u)) = None"
  proof (intro allI impI)
    fix i assume "i < length ps"
    then have "Suc i < length (p # ps)" by simp
    with Cons.prems have "match_at r (drop (Suc i) ((p # ps) @ u)) = None" by blast
    then show "match_at r (drop i (ps @ u)) = None" by simp
  qed
  from Cons.IH [OF this] head show ?case by simp
qed

lemma rx_exec_SomeD:
  "rx_exec r s = Some m \<Longrightarrow>
   match_at r (drop (length (before_match m)) s) = Some (m\<lparr>before_match := []\<rparr>) \<and>
   (\<forall>i<length (before_match m). match_at r (drop i s) = None)"
proof (induction s arbitrary: m)
  case Nil
  with match_at_split [of r "[]" m] show ?case by simp
next
  case (Cons c cs)
  show ?case
  proof (cases "match_at r (c # cs)")
    case None
    with Cons.prems obtain m' where m': "rx_exec r cs = Some m'"
      and m: "m = m'\<lparr>before_match := c # before_match m'\<rparr>"
      by auto
    from Cons.IH [OF m'] have at: "match_at r (drop (length (before_match m')) cs) = Some (m'\<lparr>before_match := []\<rparr>)"
      and earlier: "\<forall>i<length (before_match m'). match_at r (drop i cs) = None"
      by simp_all
    have "match_at r (drop i (c # cs)) = None" if "i < length (before_match m)" for i
    proof (cases i)
      case 0
      with None show ?thesis by simp
    next
      case (Suc j)
      with that m have "j < length (before_match m')" by simp
      with earlier Suc show ?thesis by simp
    qed
    with at m show ?thesis by simp
  next
    case (Some a)
    with Cons.prems have at: "match_at r (c # cs) = Some m" by simp
    from match_at_split [OF at] have "before_match m = []" by simp
    with at show ?thesis by simp
  qed
qed

lemma rx_exec_NoneD: "rx_exec r s = None \<Longrightarrow> i \<le> length s \<Longrightarrow> match_at r (drop i s) = None"
proof (induction s arbitrary: i)
  case Nil
  then show ?case by simp
next
  case (Cons c cs)
  from Cons.prems(1) have head: "match_at r (c # cs) = None" and tail: "rx_exec r cs = None"
    by (auto split: option.splits)
  show ?case
  proof (cases i)
    case 0
    with head show ?thesis by simp
  next
    case (Suc j)
    with Cons.prems(2) have "j \<le> length cs" by simp
    from Cons.IH [OF tail this] Suc show ?thesis by simp
  qed
qed

lemma rx_exec_NoneI: "(\<And>i. i \<le> length s \<Longrightarrow> match_at r (drop i s) = None) \<Longrightarrow> rx_exec r s = None"
proof (induction s)
  case Nil
  from Nil [of 0] show ?case by simp
next
  case (Cons c cs)
  from Cons.prems [of 0] have head: "match_at r (c # cs) = None" by simp
  have "match_at r (drop i cs) = None" if "i \<le> length cs" for i
    using Cons.prems [of "Suc i"] that by simp
  from Cons.IH [OF this] head show ?case by simp
qed

lemma score_tag_atD:
  assumes "match_at SCORE_RX (drop i s) = Some m"
  shows "\<exists>ds rest. s = take i s @ score_tag ds @ rest \<and> digits ds"
proof -
  from assms obtain ds rest where d: "drop i s = score_tag ds @ rest" and ds: "digits ds"
    unfolding match_at_SCORE_RX by blast
  have "s = take i s @ drop i s" by simp
  with d have "s = take i s @ score_tag ds @ rest" by simp
  with ds show ?thesis by blast
qed

lemma score_tag_atI:
  assumes "s = pre @ score_tag ds @ rest" and "digits ds"
  shows "match_at SCORE_RX (drop (length pre) s) =
    Some \<lparr>before_match = [], matched = score_tag ds, groups = [Some ds], after_match = rest\<rparr>"
proof -
  from assms(1) have "drop (length pre) s = score_tag ds @ rest" by simp
  with assms(2) show ?thesis unfolding match_at_SCORE_RX by blast
qed

lemma no_score_tag_iff:
  "rx_exec SCORE_RX s = None \<longleftrightarrow> (\<forall>pre ds rest. s = pre @ score_tag ds @ rest \<longrightarrow> \<not> digits ds)"
proof
  assume none: "rx_exec SCORE_RX s = None"
  show "\<forall>pre ds rest. s = pre @ score_tag ds @ rest \<longrightarrow> \<not> digits ds"
  proof (intro allI impI notI)
    fix pre ds rest
    assume s: "s = pre @ score_tag ds @ rest" and ds: "digits ds"
    from s have "length pre \<le> length s" by simp
    from rx_exec_NoneD [OF none this] score_tag_atI [OF s ds] show False by simp
  qed
next
  assume no: "\<forall>pre ds rest. s = pre @ score_tag ds @ rest \<longrightarrow> \<not> digits ds"
  show "rx_exec SCORE_RX s = None"
  proof (rule rx_exec_NoneI)
    fix i assume "i \<le> length s"
    show "match_at SCORE_RX (drop i s) = None"
    proof (cases "match_at SCORE_RX (drop i s)")
      case None
      then show ?thesis .
    next
      case (Some m)
      from score_tag_atD [OF Some] obtain ds rest
        where "s = take i s @ score_tag ds @ rest" "digits ds" by blast
      with no show ?thesis by blast
    qed
  qed
qed

lemma first_score_tag:
  assumes "rx_exec SCORE_RX s = Some m"
  shows "\<exists>ds. digits ds \<and> s = before_match m @ score_tag ds @ after_match m \<and>
           groups m = [Some ds] \<and>
           (\<forall>p d r. s = p @ score_tag d @ r \<and> digits d \<longrightarrow> length (before_match m) \<le> length p)"
proof -
  from rx_exec_SomeD [OF assms]
  have at: "match_at SCORE_RX (drop (length (before_match m)) s) = Some (m\<lparr>before_match := []\<rparr>)"
    and earlier: "\<forall>i<length (before_match m). match_at SCORE_RX (drop i s) = None"
    by simp_all
  from at obtain ds rest where ds: "digits ds"
    and m: "m\<lparr>before_match := []\<rparr> =
        \<lparr>before_match = [], matched = score_tag ds, groups = [Some ds], after_match = rest\<rparr>"
    unfolding match_at_SCORE_RX by blast
  from m have "matched (m\<lparr>before_match := []\<rparr>) = score_tag ds"
    and "groups (m\<lparr>before_match := []\<rparr>) = [Some ds]"
    and "after_match (m\<lparr>before_match := []\<rparr>) = rest"
    by simp_all
  then have fields: "matched m = score_tag ds" "groups m = [Some ds]" "after_match m = rest"
    by simp_all
  from rx_exec_split [OF assms] fields have s: "s = before_match m @ score_tag ds @ after_match m"
    by simp
  have first: "length (before_match m) \<le> length p" if p: "s = p @ score_tag d @ r" and d: "digits d" for p d r
  proof (rule ccontr)
    assume "\<not> length (before_match m) \<le> length p"
    then have "length p < length (before_match m)" by simp
    with earlier have "match_at SCORE_RX (drop (length p) s) = None" by blast
    with score_tag_atI [OF p d] show False by simp
  qed
  show ?thesis
  proof (intro exI conjI allI impI)
    show "digits ds" by (rule ds)
    show "s = before_match m @ score_tag ds @ after_match m" by (rule s)
    show "groups m = [Some ds]" by (rule fields)
    show "length (before_match m) \<le> length p" if "s = p @ score_tag d @ r \<and> digits d" for p d r
      using that first by blast
  qed
qed

lemma first_score_tag_unique:
  assumes s: "s = pre @ score_tag ds @ rest" and ds: "digits ds"
    and first: "\<forall>p d r. s = p @ score_tag d @ r \<and> digits d \<longrightarrow> length pre \<le> length p"
  shows "\<exists>m. rx_exec SCORE_RX s = Some m \<and> groups m = [Some ds]"
proof -
  let ?m = "\<lparr>before_match = [], matched = score_tag ds, groups = [Some ds], after_match = rest\<rparr>"
  from score_tag_atI [OF s ds] have at: "match_at SCORE_RX (score_tag ds @ rest) = Some ?m"
    using s by simp
  have "match_at SCORE_RX (drop i (pre @ score_tag ds @ rest)) = None" if i: "i < length pre" for i
  proof (cases "match_at SCORE_RX (drop i s)")
    case None
    with s show ?thesis by simp
  next
    case (Some m')
    from score_tag_atD [OF Some] obtain d r where "s = take i s @ score_tag d @ r" "digits d"
      by blast
    with first have "length pre \<le> length (take i s)" by blast
    with i show ?thesis by simp
  qed
  then have "\<forall>i<length pre. match_at SCORE_RX (drop i (pre @ score_tag ds @ rest)) = None"
    by blast
  from rx_exec_found [OF at this] s have "rx_exec SCORE_RX s = Some (?m\<lparr>before_match := pre\<rparr>)"
    by simp
  then show ?thesis by simp
qed

lemma parseInt_nonneg_aux:
  "0 \<le> acc \<Longrightarrow> list_all is_digit ds \<Longrightarrow>
   0 \<le> foldl (\<lambda>acc c. 10 * acc + (int (of_char c) - 48)) acc ds"
proof (induction ds arbitrary: acc)
  case Nil
  then show ?case by simp
next
  case (Cons d ds)
  from Cons.prems have "0 \<le> 10 * acc + (int (of_char d) - 48)"
    by (simp add: is_digit_def)
  with Cons.IH Cons.prems show ?case by simp
qed

lemma parseInt_nonneg: "list_all is_digit ds \<Longrightarrow> 0 \<le> parseInt ds"
  unfolding parseInt_def by (rule parseInt_nonneg_aux) simp_all

lemma extract_score_tag:
  assumes "rx_exec SCORE_RX s = Some m" and "groups m = [Some ds]" and "digits ds"
  shows "extract_score s = min (parseInt ds) 100"
proof -
  from assms(2) have "capture 1 m = Some ds" by (simp add: capture_def)
  with assms(1,3) have "extract_score s = min (max (parseInt ds) 0) 100"
    by (simp add: extract_score_def digits_def)
  moreover from assms(3) have "0 \<le> parseInt ds" by (simp add: digits_def parseInt_nonneg)
  ultimately show ?thesis by simp
qed

lemma extract_score_none: "rx_exec SCORE_RX s = None \<Longrightarrow> extract_score s = 0"
  by (simp add: extract_score_def parseInt_def)

text \<open>
  C2. For every response text the score is an integer from 0 to 100. When the text holds
  no score tag (no \<open><SCORE:N>\<close> with \<open>N\<close> one or more digits) the score is 0; otherwise it
  is the number of the first tag, or 100 when that number is larger. \<open><SCORE:150>\<close> gives 100,
  and \<open><SCORE:-5>\<close>, which is no tag, gives 0. (The number is parsed exactly; JavaScript
  rounds numbers beyond \<open>2^53\<close>, which the clamp to 100 hides.)
\<close>

theorem score_in_range:
  "0 \<le> extract_score s \<and> extract_score s \<le> 100 \<and>
   ((\<forall>pre ds rest. s = pre @ score_tag ds @ rest \<longrightarrow> \<not> digits ds) \<longrightarrow> extract_score s = 0) \<and>
   (\<forall>pre ds rest.
      s = pre @ score_tag ds @ rest \<and> digits ds \<and>
      (\<forall>p d r. s = p @ score_tag d @ r \<and> digits d \<longrightarrow> length pre \<le> length p) \<longrightarrow>
      extract_score s = min (parseInt ds) 100) \<and>
   extract_score ''<SCORE:150>'' = 100 \<and>
   extract_score ''<SCORE:-5>'' = 0 \<and>
   (\<forall>file v. parse_response file s = Inr v \<longrightarrow> score v = extract_score s)"
proof -
  have range: "0 \<le> extract_score s \<and> extract_score s \<le> 100"
    by (simp add: extract_score_def Let_def)
  have absent: "(\<forall>pre ds rest. s = pre @ score_tag ds @ rest \<longrightarrow> \<not> digits ds) \<longrightarrow> extract_score s = 0"
    using no_score_tag_iff [of s] extract_score_none [of s] by blast
  have present: "extract_score s = min (parseInt ds) 100"
    if "s = pre @ score_tag ds @ rest \<and> digits ds \<and>
      (\<forall>p d r. s = p @ score_tag d @ r \<and> digits d \<longrightarrow> length pre \<le> length p)" for pre ds rest
  proof -
    from that have s: "s = pre @ score_tag ds @ rest" and ds: "digits ds"
      and first: "\<forall>p d r. s = p @ score_tag d @ r \<and> digits d \<longrightarrow> length pre \<le> length p"
      by blast+
    from first_score_tag_unique [OF s ds first] obtain m
      where "rx_exec SCORE_RX s = Some m" "groups m = [Some ds]" by blast
    then show ?thesis using ds by (rule extract_score_tag)
  qed
  have high: "extract_score ''<SCORE:150>'' = 100" by code_simp
  have signed: "extract_score ''<SCORE:-5>'' = 0" by code_simp
  have stored: "\<forall>file v. parse_response file s = Inr v \<longrightarrow> score v = extract_score s"
    by (auto simp: parse_response_def split: sum.splits)
  from range absent present high signed stored show ?thesis by blast
qed

theorem score_in_range_witness:
  "extract_score ''<SCORE:-5> ok'' = 0 \<and>
   ''a <SCORE:150> b <SCORE:7>'' = ''a '' @ score_tag ''150'' @ '' b <SCORE:7>'' \<and>
   digits ''150'' \<and>
   extract_score ''a <SCORE:150> b <SCORE:7>'' = 100"
proof -
  have "rx_exec SCORE_RX ''<SCORE:-5> ok'' = None"
    by code_simp
  then have absent: "\<forall>pre ds rest. ''<SCORE:-5> ok'' = pre @ score_tag ds @ rest \<longrightarrow> \<not> digits ds"
    by (simp only: no_score_tag_iff)
  with score_in_range [of "''<SCORE:-5> ok''"] have zero: "extract_score ''<SCORE:-5> ok'' = 0"
    by blast
  have found: "rx_exec SCORE_RX ''a <SCORE:150> b <SCORE:7>'' =
      Some \<lparr>before_match = ''a '', matched = ''<SCORE:150>'', groups = [Some ''150''],
            after_match = '' b <SCORE:7>''\<rparr>"
    by code_simp
  from first_score_tag [OF found]
  have first: "\<forall>p d r. ''a <SCORE:150> b <SCORE:7>'' = p @ score_tag d @ r \<and> digits d \<longrightarrow>
      length ''a '' \<le> length p"
    by simp
  have split: "''a <SCORE:150> b <SCORE:7>'' = ''a '' @ score_tag ''150'' @ '' b <SCORE:7>''"
    by (simp add: score_tag_def)
  have dg: "digits ''150''"
    by (simp add: digits_def is_digit_def)
  from score_in_range [of "''a <SCORE:150> b <SCORE:7>''"] split dg first
  have "extract_score ''a <SCORE:150> b <SCORE:7>'' = min (parseInt ''150'') 100"
    by blast
  also have "\<dots> = 100"
    by (simp add: parseInt_def)
  finally show ?thesis using zero split dg by blast
qed


subsection \<open>First occurrences and lazy repetition\<close>

lemma split_first_SomeD: "split_first l s = Some (p, q) \<Longrightarrow> s = p @ l @ q"
proof (induction s arbitrary: p)
  case Nil
  then show ?case by (simp split: if_splits)
next
  case (Cons c cs)
  show ?case
  proof (cases "starts_with l (c # cs)")
    case True
    with Cons.prems have "p = []" "q = drop (length l) (c # cs)" by simp_all
    moreover from True obtain t where "c # cs = l @ t" by (auto simp: starts_with_iff)
    ultimately show ?thesis by simp
  next
    case False
    with Cons.prems obtain p' where "split_first l cs = Some (p', q)" "p = c # p'"
      by auto
    with Cons.IH show ?thesis by simp
  qed
qed

lemma split_first_NoneD: "split_first l s = None \<Longrightarrow> s \<noteq> p @ l @ q"
proof (induction s arbitrary: p)
  case Nil
  then show ?case by (auto split: if_splits)
next
  case (Cons c cs)
  from Cons.prems have no: "\<not> starts_with l (c # cs)" and tail: "split_first l cs = None"
    by (auto split: if_splits)
  show ?case
  proof (cases p)
    case Nil
    with no show ?thesis by (auto simp: starts_with_iff)
  next
    case (Cons a p')
    with Cons.IH [OF tail, of p'] show ?thesis by auto
  qed
qed

lemma split_first_first:
  "split_first l s = Some (p, q) \<Longrightarrow> s = p' @ l @ q' \<Longrightarrow> length p \<le> length p'"
proof (induction s arbitrary: p p')
  case Nil
  then show ?case by (simp split: if_splits)
next
  case (Cons c cs)
  show ?case
  proof (cases "starts_with l (c # cs)")
    case True
    with Cons.prems(1) have "p = []" by simp
    then show ?thesis by simp
  next
    case False
    with Cons.prems(1) obtain p1 where 1: "split_first l cs = Some (p1, q)" and p: "p = c # p1"
      by auto
    show ?thesis
    proof (cases p')
      case Nil
      with Cons.prems(2) False show ?thesis by (auto simp: starts_with_iff)
    next
      case (Cons a p2)
      with Cons.prems(2) have "cs = p2 @ l @ q'" by simp
      from Cons.IH [OF 1 this] p Cons show ?thesis by simp
    qed
  qed
qed

lemma split_first_skip:
  "\<forall>c \<in> set w. c \<noteq> y \<Longrightarrow>
   split_first (y # ys) (w @ t) = map_option (\<lambda>(p, q). (w @ p, q)) (split_first (y # ys) t)"
proof (induction w)
  case Nil
  show ?case by (cases "split_first (y # ys) t") auto
next
  case (Cons a w)
  then have "a \<noteq> y" and IH: "split_first (y # ys) (w @ t) = map_option (\<lambda>(p, q). (w @ p, q)) (split_first (y # ys) t)"
    by simp_all
  then show ?case
    by (cases "split_first (y # ys) t") (auto simp: option.map_comp comp_def split_def)
qed


lemma lazy_rests_length: "r \<in> set (lazy_rests c t) \<Longrightarrow> length r \<le> length t"
  by (auto dest: lazy_rests_suffix)

lemma first_lazy_rest:
  "(case filter (starts_with l) (lazy_rests AnyChar t) of
      [] \<Rightarrow> None
    | r # _ \<Rightarrow> Some (take (length t - length r) t, drop (length l) r)) = split_first l t"
proof (induction t)
  case Nil
  then show ?case by (cases l) simp_all
next
  case (Cons c cs)
  show ?case
  proof (cases "starts_with l (c # cs)")
    case True
    then show ?thesis by simp
  next
    case False
    show ?thesis
    proof (cases "filter (starts_with l) (lazy_rests AnyChar cs)")
      case Nil
      with False Cons.IH show ?thesis by simp
    next
      case (Cons r rs)
      then have "r \<in> set (filter (starts_with l) (lazy_rests AnyChar cs))" by simp
      then have "r \<in> set (lazy_rests AnyChar cs)" by simp
      then have "length r \<le> length cs" by (rule lazy_rests_length)
      then have "take (length (c # cs) - length r) (c # cs) = c # take (length cs - length r) cs"
        by (simp add: Suc_diff_le)
      with False Cons Cons.IH [symmetric] show ?thesis by simp
    qed
  qed
qed

lemma run_Lazy_Lit:
  "run (Seq (StarLazy AnyChar) (Lit l)) t =
     map (\<lambda>r. ([], drop (length l) r)) (filter (starts_with l) (lazy_rests AnyChar t))"
proof -
  have "run (Seq (StarLazy AnyChar) (Lit l)) t =
      map (\<lambda>(c, r). (c, drop (length l) r))
        (filter (\<lambda>(c, r). starts_with l r) (run (StarLazy AnyChar) t))"
    by (rule run_Seq_then_Lit)
  also have "\<dots> = map (\<lambda>(c, r). (c, drop (length l) r))
        (map (\<lambda>r. ([], r)) (filter (starts_with l) (lazy_rests AnyChar t)))"
    by (simp only: run.simps filter_snd_map)
  finally show ?thesis by (simp add: comp_def)
qed

lemma run_Group_Lazy_Lit:
  "run (Seq (Group (StarLazy AnyChar)) (Lit l)) t =
     map (\<lambda>r. ([Some (take (length t - length r) t)], drop (length l) r))
       (filter (starts_with l) (lazy_rests AnyChar t))"
proof -
  have g: "run (Group (StarLazy AnyChar)) t =
      map (\<lambda>r. ([Some (take (length t - length r) t)], r)) (lazy_rests AnyChar t)"
    by (simp add: comp_def)
  have "run (Seq (Group (StarLazy AnyChar)) (Lit l)) t =
      map (\<lambda>(c, r). (c, drop (length l) r))
        (filter (\<lambda>(c, r). starts_with l r) (run (Group (StarLazy AnyChar)) t))"
    by (rule run_Seq_then_Lit)
  also have "\<dots> = map (\<lambda>(c, r). (c, drop (length l) r))
        (map (\<lambda>r. ([Some (take (length t - length r) t)], r))
           (filter (starts_with l) (lazy_rests AnyChar t)))"
    by (simp only: g filter_snd_map)
  finally show ?thesis by (simp add: comp_def)
qed

lemma first_Lazy_Lit:
  "(case run (Seq (StarLazy AnyChar) (Lit l)) t of [] \<Rightarrow> None | x # _ \<Rightarrow> Some x) =
     map_option (\<lambda>(body, rest). ([], rest)) (split_first l t)"
  unfolding run_Lazy_Lit first_lazy_rest [symmetric]
  by (cases "filter (starts_with l) (lazy_rests AnyChar t)") simp_all

lemma first_Group_Lazy_Lit:
  "(case run (Seq (Group (StarLazy AnyChar)) (Lit l)) t of [] \<Rightarrow> None | x # _ \<Rightarrow> Some x) =
     map_option (\<lambda>(body, rest). ([Some body], rest)) (split_first l t)"
  unfolding run_Group_Lazy_Lit first_lazy_rest [symmetric]
  by (cases "filter (starts_with l) (lazy_rests AnyChar t)") simp_all

lemma match_at_first:
  "match_at r s =
     map_option (\<lambda>(caps, rest).
         \<lparr>before_match = [], matched = take (length s - length rest) s, groups = caps,
          after_match = rest\<rparr>)
       (case run r s of [] \<Rightarrow> None | x # _ \<Rightarrow> Some x)"
  by (simp add: match_at_def split: list.splits)

lemma match_at_open_close:
  assumes run: "\<And>t. (case run body t of [] \<Rightarrow> None | x # _ \<Rightarrow> Some x) =
      map_option (\<lambda>(inner, rest). (g inner, rest)) (split_first cl t)"
  shows "match_at (Seq (Lit op) body) s =
     (if starts_with op s
      then map_option (\<lambda>(inner, rest).
             \<lparr>before_match = [], matched = op @ inner @ cl, groups = g inner, after_match = rest\<rparr>)
           (split_first cl (drop (length op) s))
      else None)"
proof (cases "starts_with op s")
  case False
  then show ?thesis
    unfolding match_at_first run_Seq_Lit by simp
next
  case True
  then obtain t where s: "s = op @ t" unfolding starts_with_iff by blast
  have "match_at (Seq (Lit op) body) s =
     map_option (\<lambda>(caps, rest).
         \<lparr>before_match = [], matched = take (length s - length rest) s, groups = caps,
          after_match = rest\<rparr>)
       (map_option (\<lambda>(inner, rest). (g inner, rest)) (split_first cl (drop (length op) s)))"
    unfolding match_at_first run_Seq_Lit run [symmetric]
    using True by simp
  also have "\<dots> = map_option (\<lambda>(inner, rest).
             \<lparr>before_match = [], matched = op @ inner @ cl, groups = g inner, after_match = rest\<rparr>)
           (split_first cl (drop (length op) s))"
  proof (cases "split_first cl (drop (length op) s)")
    case None
    then show ?thesis by simp
  next
    case (Some a)
    obtain inner rest where a: "a = (inner, rest)" by (cases a)
    from Some a have "split_first cl t = Some (inner, rest)" using s by simp
    from split_first_SomeD [OF this] s have "s = (op @ inner @ cl) @ rest"
      by simp
    then have "take (length s - length rest) s = op @ inner @ cl"
      by (metis append_eq_conv_conj length_append add_diff_cancel_right')
    with Some a show ?thesis by simp
  qed
  finally show ?thesis using True by simp
qed

lemma run_Seq_Opt:
  "ngroups a = 0 \<Longrightarrow>
   run (Seq (Opt a) b) t =
     concat (map (\<lambda>(c1, s1). map (\<lambda>(c2, s2). (c1 @ c2, s2)) (run b s1)) (run a t)) @ run b t"
  by simp

lemma strip_tag_eq: "strip_tag t = (if has_tag t then drop 1 (dropWhile is_word t) else t)"
  by (simp add: strip_tag_def has_tag_def)

lemma not_word_nl: "\<not> in_class Word (CHR 0x0A)"
  by (simp add: is_word_def)

lemma run_TAG:
  "run (Seq (Plus Word) (Lit [CHR 0x0A])) t =
     (if has_tag t then [([], drop 1 (dropWhile is_word t))] else [])"
proof -
  have cls: "in_class Word = is_word" by (rule ext) simp
  show ?thesis
    unfolding run_Plus_Lit [OF not_word_nl] cls has_tag_def by simp
qed

lemma run_Opt_TAG:
  "run (Seq (Opt (Seq (Plus Word) (Lit [CHR 0x0A]))) b) t =
     (if has_tag t then run b (drop 1 (dropWhile is_word t)) else []) @ run b t"
proof -
  have "ngroups (Seq (Plus Word) (Lit [CHR 0x0A])) = 0" by simp
  from run_Seq_Opt [OF this, of b t] show ?thesis
    unfolding run_TAG by simp
qed

lemma has_tag_split:
  assumes "has_tag t"
  shows "t = takeWhile is_word t @ CHR 0x0A # strip_tag t"
proof -
  from assms obtain r where r: "dropWhile is_word t = CHR 0x0A # r"
    by (auto simp: has_tag_def starts_with_iff)
  have "t = takeWhile is_word t @ dropWhile is_word t" by simp
  with r assms show ?thesis by (simp add: strip_tag_eq)
qed

lemma has_tag_intro:
  assumes "w \<noteq> []" and "list_all is_word w"
  shows "has_tag (w @ CHR 0x0A # r)" and "strip_tag (w @ CHR 0x0A # r) = r"
proof -
  have nw: "\<not> is_word (CHR 0x0A)" by (simp add: is_word_def)
  from assms(2) nw have tw: "takeWhile is_word (w @ CHR 0x0A # r) = w"
    and dw: "dropWhile is_word (w @ CHR 0x0A # r) = CHR 0x0A # r"
    by (simp_all add: takeWhile_all dropWhile_all)
  with assms(1) show "has_tag (w @ CHR 0x0A # r)" by (simp add: has_tag_def)
  then show "strip_tag (w @ CHR 0x0A # r) = r" by (simp add: strip_tag_eq dw)
qed

lemma word_not_backtick: "is_word c \<Longrightarrow> c \<noteq> CHR 0x60"
  by (auto simp: is_word_def)

lemma has_tag_append:
  assumes "has_tag inner"
  shows "has_tag (inner @ x)"
proof -
  define w where "w = takeWhile is_word inner"
  define r where "r = strip_tag inner"
  from has_tag_split [OF assms] have inner: "inner = w @ CHR 0x0A # r"
    by (simp add: w_def r_def)
  from assms have ne: "w \<noteq> []" by (simp add: has_tag_def w_def)
  have la: "list_all is_word w" unfolding w_def by (rule list_all_takeWhile)
  from ne la have "has_tag (w @ CHR 0x0A # (r @ x))" by (rule has_tag_intro(1))
  then show ?thesis by (simp add: inner)
qed

lemma strip_tag_split:
  "split_first ''```'' (strip_tag t) =
     map_option (\<lambda>(inner, post). (strip_tag inner, post)) (split_first ''```'' t)"
proof (cases "has_tag t")
  case True
  let ?w = "takeWhile is_word t"
  from has_tag_split [OF True] have t: "t = (?w @ [CHR 0x0A]) @ strip_tag t" by simp
  have "\<forall>c \<in> set (?w @ [CHR 0x0A]). c \<noteq> CHR 0x60"
    by (auto dest: set_takeWhileD word_not_backtick)
  from split_first_skip [OF this, of "''``''" "strip_tag t"] t
  have sf: "split_first ''```'' t =
      map_option (\<lambda>(p, q). ((?w @ [CHR 0x0A]) @ p, q)) (split_first ''```'' (strip_tag t))"
    by simp
  from True have w: "?w \<noteq> []" by (simp add: has_tag_def)
  have "strip_tag ((?w @ [CHR 0x0A]) @ p) = p" for p
    using has_tag_intro(2) [OF w list_all_takeWhile, of p] by simp
  then show ?thesis
    unfolding sf by (cases "split_first ''```'' (strip_tag t)") auto
next
  case False
  then have st: "strip_tag t = t" by (simp add: strip_tag_eq)
  show ?thesis
  proof (cases "split_first ''```'' t")
    case None
    with st show ?thesis by simp
  next
    case (Some a)
    obtain inner post where a: "a = (inner, post)" by (cases a)
    from split_first_SomeD Some a have "t = inner @ ''```'' @ post" by blast
    with False have "\<not> has_tag inner" using has_tag_append [of inner "''```'' @ post"] by auto
    then have "strip_tag inner = inner" by (simp add: strip_tag_eq)
    with Some a st show ?thesis by simp
  qed
qed

lemma first_Opt_TAG:
  assumes B: "\<And>u. (case run b u of [] \<Rightarrow> None | x # _ \<Rightarrow> Some x) =
      map_option (\<lambda>(body, rest). ([Some body], rest)) (split_first ''```'' u)"
  shows "(case run (Seq (Opt (Seq (Plus Word) (Lit [CHR 0x0A]))) b) t of
      [] \<Rightarrow> None | x # _ \<Rightarrow> Some x) =
     map_option (\<lambda>(inner, rest). ([Some (strip_tag inner)], rest)) (split_first ''```'' t)"
proof -
  have "(case run (Seq (Opt (Seq (Plus Word) (Lit [CHR 0x0A]))) b) t of
      [] \<Rightarrow> None | x # _ \<Rightarrow> Some x) =
        map_option (\<lambda>(body, rest). ([Some body], rest)) (split_first ''```'' (strip_tag t))"
  proof (cases "has_tag t")
    case False
    then have "run (Seq (Opt (Seq (Plus Word) (Lit [CHR 0x0A]))) b) t = run b t"
      unfolding run_Opt_TAG by simp
    with False show ?thesis by (simp only: B strip_tag_eq if_False)
  next
    case True
    then have st: "drop 1 (dropWhile is_word t) = strip_tag t" by (simp add: strip_tag_eq)
    have run: "run (Seq (Opt (Seq (Plus Word) (Lit [CHR 0x0A]))) b) t =
        run b (strip_tag t) @ run b t"
      unfolding run_Opt_TAG using True st by simp
    show ?thesis
    proof (cases "split_first ''```'' (strip_tag t)")
      case (Some a)
      with B [of "strip_tag t"] obtain x xs where "run b (strip_tag t) = x # xs"
        by (cases "run b (strip_tag t)") simp_all
      then have "(case run b (strip_tag t) @ run b t of [] \<Rightarrow> None | x # _ \<Rightarrow> Some x) =
          (case run b (strip_tag t) of [] \<Rightarrow> None | x # _ \<Rightarrow> Some x)"
        by simp
      then show ?thesis unfolding run B .
    next
      case None
      with strip_tag_split [of t] have none: "split_first ''```'' t = None" by simp
      with B [of t] have "run b t = []" by (cases "run b t") simp_all
      moreover from None B [of "strip_tag t"] have "run b (strip_tag t) = []"
        by (cases "run b (strip_tag t)") simp_all
      ultimately show ?thesis unfolding run using None by simp
    qed
  qed
  then show ?thesis
    unfolding strip_tag_split by (cases "split_first ''```'' t") auto
qed

subsection \<open>Spans between two delimiters\<close>

lemma span_between_SomeD:
  "span_between op cl s = Some (pre, inner, post) \<Longrightarrow> s = pre @ op @ inner @ cl @ post"
  by (auto simp: span_between_def split: option.splits dest!: split_first_SomeD)

lemma span_between_Cons:
  "\<not> starts_with op (c # cs) \<Longrightarrow>
   span_between op cl (c # cs) =
     map_option (\<lambda>(pre, inner, post). (c # pre, inner, post)) (span_between op cl cs)"
  by (cases "split_first op cs") (auto simp: span_between_def split: option.splits)

lemma split_first_open: "starts_with op s \<Longrightarrow> split_first op s = Some ([], drop (length op) s)"
  by (cases s) (auto simp: starts_with_iff)

lemma span_between_open:
  "starts_with op s \<Longrightarrow>
   span_between op cl s =
     map_option (\<lambda>(inner, post). ([], inner, post)) (split_first cl (drop (length op) s))"
  unfolding span_between_def
  by (cases "split_first cl (drop (length op) s)") (auto simp: split_first_open)

lemma rx_exec_open_close:
  assumes at: "\<And>s. match_at r s =
     (if starts_with op s
      then map_option (\<lambda>(inner, rest).
             \<lparr>before_match = [], matched = op @ inner @ cl, groups = g inner, after_match = rest\<rparr>)
           (split_first cl (drop (length op) s))
      else None)"
    and op: "op \<noteq> []"
  shows "rx_exec r s =
     map_option (\<lambda>(pre, inner, post).
         \<lparr>before_match = pre, matched = op @ inner @ cl, groups = g inner, after_match = post\<rparr>)
       (span_between op cl s)"
proof (induction s)
  case Nil
  from op have "\<not> starts_with op []" by (cases op) simp_all
  moreover from op have "split_first op [] = None" by simp
  ultimately show ?case by (simp add: at span_between_def)
next
  case (Cons c cs)
  show ?case
  proof (cases "starts_with op (c # cs)")
    case False
    then have "match_at r (c # cs) = None" by (simp only: at if_False)
    then have "rx_exec r (c # cs) = map_option (\<lambda>m. m\<lparr>before_match := c # before_match m\<rparr>) (rx_exec r cs)"
      by simp
    then show ?thesis
      unfolding Cons.IH span_between_Cons [OF False]
      by (cases "span_between op cl cs") auto
  next
    case True
    show ?thesis
    proof (cases "split_first cl (drop (length op) (c # cs))")
      case (Some a)
      with True have "match_at r (c # cs) \<noteq> None" by (simp only: at if_True) simp
      then obtain m where m: "match_at r (c # cs) = Some m" by blast
      then have "rx_exec r (c # cs) = match_at r (c # cs)" by simp
      then show ?thesis
        unfolding span_between_open [OF True] using True Some
        by (simp only: at if_True) (auto simp: split_def)
    next
      case None
      with True have none: "match_at r (c # cs) = None" by (simp only: at if_True) simp
      have "span_between op cl cs = None"
      proof (cases "span_between op cl cs")
        case None
        then show ?thesis .
      next
        case (Some a)
        obtain pre inner post where a: "a = (pre, inner, post)" by (cases a)
        from span_between_SomeD Some a have cs: "cs = pre @ op @ inner @ cl @ post" by blast
        define x where "x = pre @ op @ inner"
        from op obtain n where n: "length op = Suc n" by (cases op) auto
        have "n \<le> length x" by (simp add: x_def n)
        then have "drop n (x @ cl @ post) = drop n x @ cl @ post" by simp
        moreover have "drop (length op) (c # cs) = drop n (x @ cl @ post)"
          by (simp add: cs x_def n)
        ultimately have "drop (length op) (c # cs) = drop n x @ cl @ post" by simp
        with split_first_NoneD [OF None] show ?thesis by blast
      qed
      with Cons.IH have "rx_exec r cs = None" by simp
      with none have "rx_exec r (c # cs) = None" by simp
      moreover from None have "span_between op cl (c # cs) = None"
        unfolding span_between_open [OF True] by simp
      ultimately show ?thesis by simp
    qed
  qed
qed

lemma starts_with_append:
  "length l \<le> length x \<Longrightarrow> starts_with l (x @ q) = starts_with l x"
proof (induction l x rule: starts_with.induct)
  case (1 s)
  then show ?case by simp
next
  case (2 p ps)
  then show ?case by simp
next
  case (3 p ps c cs)
  then show ?case by simp
qed

lemma split_first_later:
  "split_first l s = Some (p, q) \<Longrightarrow> split_first l (p @ l @ q') = Some (p, q')"
proof (induction s arbitrary: p)
  case Nil
  then have "l = []" "p = []" by (simp_all split: if_splits)
  then show ?case by (cases q') simp_all
next
  case (Cons c cs)
  show ?case
  proof (cases "starts_with l (c # cs)")
    case True
    with Cons.prems have p: "p = []" by simp
    have sw: "starts_with l (l @ q')" unfolding starts_with_iff by blast
    have "split_first l (l @ q') = Some ([], q')"
      using split_first_open [OF sw] by simp
    then show ?thesis unfolding p by simp
  next
    case False
    with Cons.prems obtain p' where tail: "split_first l cs = Some (p', q)" and p: "p = c # p'"
      by auto
    from split_first_SomeD [OF tail] have cs: "cs = p' @ l @ q" .
    have len: "length l \<le> length (c # p' @ l)" by simp
    from False have "\<not> starts_with l ((c # p' @ l) @ q)" by (simp add: cs)
    then have "\<not> starts_with l (c # p' @ l)"
      unfolding starts_with_append [OF len] .
    then have "\<not> starts_with l ((c # p' @ l) @ q')"
      unfolding starts_with_append [OF len] .
    then have "\<not> starts_with l (c # p' @ l @ q')" by simp
    with Cons.IH [OF tail] show ?thesis unfolding p by simp
  qed
qed

lemma span_between_later:
  assumes "span_between op cl s = Some (pre, inner, post)"
  shows "span_between op cl (pre @ op @ inner @ cl @ later) = Some (pre, inner, later)"
proof -
  from assms obtain t where 1: "split_first op s = Some (pre, t)"
    and 2: "split_first cl t = Some (inner, post)"
    by (auto simp: span_between_def split: option.splits)
  from split_first_later [OF 1, of "inner @ cl @ later"]
  have "split_first op (pre @ op @ inner @ cl @ later) = Some (pre, inner @ cl @ later)" .
  moreover from split_first_later [OF 2, of later]
  have "split_first cl (inner @ cl @ later) = Some (inner, later)" .
  ultimately show ?thesis by (simp add: span_between_def)
qed

lemma span_between_None_iff:
  "span_between op cl s = None \<longleftrightarrow> (\<forall>p x q. s \<noteq> p @ op @ x @ cl @ q)"
proof
  assume none: "span_between op cl s = None"
  show "\<forall>p x q. s \<noteq> p @ op @ x @ cl @ q"
  proof (intro allI notI)
    fix p x q assume s: "s = p @ op @ x @ cl @ q"
    show False
    proof (cases "split_first op s")
      case None
      from split_first_NoneD [OF this] s show False by blast
    next
      case (Some a)
      obtain pre t where a: "a = (pre, t)" by (cases a)
      from Some a have sf: "split_first op s = Some (pre, t)" by simp
      from split_first_first [OF sf s] have le: "length pre \<le> length p" .
      from split_first_SomeD [OF sf] have s': "s = pre @ op @ t" .
      from none sf have "split_first cl t = None"
        by (auto simp: span_between_def split: option.splits)
      from split_first_NoneD [OF this] have no: "t \<noteq> y @ cl @ z" for y z .
      define y where "y = p @ op @ x"
      from le have "length pre + length op \<le> length y" by (simp add: y_def)
      then have "drop (length pre + length op) (y @ cl @ q) = drop (length pre + length op) y @ cl @ q"
        by simp
      moreover from s have "s = y @ cl @ q" by (simp add: y_def)
      moreover have "drop (length pre + length op) s = t" by (subst s') simp
      ultimately have "t = drop (length pre + length op) y @ cl @ q" by simp
      with no show False by blast
    qed
  qed
next
  assume no: "\<forall>p x q. s \<noteq> p @ op @ x @ cl @ q"
  show "span_between op cl s = None"
  proof (cases "span_between op cl s")
    case None
    then show ?thesis .
  next
    case (Some a)
    obtain pre inner post where "a = (pre, inner, post)" by (cases a)
    with Some span_between_SomeD have "s = pre @ op @ inner @ cl @ post" by blast
    with no show ?thesis by blast
  qed
qed

subsection \<open>The first fenced block\<close>

lemma rx_exec_FENCE_RX:
  "rx_exec FENCE_RX s =
     map_option (\<lambda>(pre, inner, post).
         \<lparr>before_match = pre, matched = ''```'' @ inner @ ''```'',
          groups = [Some (strip_tag inner)], after_match = post\<rparr>)
       (fence_span s)"
  unfolding FENCE_RX_def fence_span_def
  by (rule rx_exec_open_close [OF match_at_open_close [OF first_Opt_TAG [OF first_Group_Lazy_Lit]]])
    simp

lemma rx_exec_FENCE_STRIP_RX:
  "rx_exec FENCE_STRIP_RX s =
     map_option (\<lambda>(pre, inner, post).
         \<lparr>before_match = pre, matched = ''```'' @ inner @ ''```'', groups = [], after_match = post\<rparr>)
       (fence_span s)"
  unfolding FENCE_STRIP_RX_def fence_span_def
  by (rule rx_exec_open_close [OF match_at_open_close [OF first_Lazy_Lit]]) simp

lemma rx_exec_THINK_RX:
  "rx_exec THINK_RX s =
     map_option (\<lambda>(pre, inner, post).
         \<lparr>before_match = pre, matched = ''<think>'' @ inner @ ''</think>'', groups = [],
          after_match = post\<rparr>)
       (think_span s)"
  unfolding THINK_RX_def think_span_def
  by (rule rx_exec_open_close [OF match_at_open_close [OF first_Lazy_Lit]]) simp

lemma extract_correctedCode_eq:
  "extract_correctedCode s =
     Inr (map_option (\<lambda>(pre, inner, post). trim (strip_tag inner)) (fence_span s))"
  unfolding extract_correctedCode_def rx_exec_FENCE_RX
  by (cases "fence_span s") (auto simp: capture_def)

lemma replace_first_fence:
  "replace_first FENCE_STRIP_RX s =
     (case fence_span s of None \<Rightarrow> s | Some (pre, inner, post) \<Rightarrow> pre @ post)"
  unfolding replace_first_def rx_exec_FENCE_STRIP_RX
  by (cases "fence_span s") auto

lemma fence_span_SomeD:
  "fence_span s = Some (pre, inner, post) \<Longrightarrow> s = pre @ ''```'' @ inner @ ''```'' @ post"
  unfolding fence_span_def by (rule span_between_SomeD)

lemma fence_span_later:
  "fence_span s = Some (pre, inner, post) \<Longrightarrow>
   fence_span (pre @ ''```'' @ inner @ ''```'' @ later) = Some (pre, inner, later)"
  unfolding fence_span_def by (rule span_between_later)

lemma fence_span_None_iff:
  "fence_span s = None \<longleftrightarrow> (\<forall>p x q. s \<noteq> p @ ''```'' @ x @ ''```'' @ q)"
  unfolding fence_span_def by (rule span_between_None_iff)

lemma parse_response_total:
  "parse_response file s =
     Inr \<lparr>fileName = name file, filePath = path file, code = content file,
          result = trim (replace_first FENCE_STRIP_RX s), score = extract_score s,
          correctedCode = map_option (\<lambda>(pre, inner, post). trim (strip_tag inner)) (fence_span s),
          hasCorrections =
            (map_option (\<lambda>(pre, inner, post). trim (strip_tag inner)) (fence_span s) \<noteq> None \<and>
             map_option (\<lambda>(pre, inner, post). trim (strip_tag inner)) (fence_span s) \<noteq> Some [])\<rparr>"
  unfolding parse_response_def extract_correctedCode_eq by simp


text \<open>
  C3, as amended. The corrected code is taken from the first fenced block only: the text
  between the first fence and the next one, without the language tag (one or more word
  characters and a line feed right after the opening fence), trimmed. \<open>correctedCode\<close> is
  that text when the response has such a block and unset otherwise, and \<open>hasCorrections\<close>
  holds exactly when the response has such a block and that text is not empty. What
  follows the first block, later blocks included, has no part in it.
\<close>

theorem first_fenced_block:
  "extract_correctedCode s =
     Inr (map_option (\<lambda>(pre, inner, post). trim (strip_tag inner)) (fence_span s)) \<and>
   (\<forall>file v. parse_response file s = Inr v \<longrightarrow>
      correctedCode v = map_option (\<lambda>(pre, inner, post). trim (strip_tag inner)) (fence_span s) \<and>
      hasCorrections v =
        (\<exists>pre inner post. fence_span s = Some (pre, inner, post) \<and> trim (strip_tag inner) \<noteq> [])) \<and>
   (\<forall>pre inner post. fence_span s = Some (pre, inner, post) \<longrightarrow>
      s = pre @ ''```'' @ inner @ ''```'' @ post \<and>
      (\<forall>later. fence_span (pre @ ''```'' @ inner @ ''```'' @ later) = Some (pre, inner, later))) \<and>
   (fence_span s = None \<longleftrightarrow> (\<forall>p x q. s \<noteq> p @ ''```'' @ x @ ''```'' @ q))"
proof -
  have stored: "correctedCode v = map_option (\<lambda>(pre, inner, post). trim (strip_tag inner)) (fence_span s) \<and>
      hasCorrections v =
        (\<exists>pre inner post. fence_span s = Some (pre, inner, post) \<and> trim (strip_tag inner) \<noteq> [])"
    if "parse_response f s = Inr v" for f v
    using that unfolding parse_response_def extract_correctedCode_eq
    by (cases "fence_span s") auto
  have span: "s = pre @ ''```'' @ inner @ ''```'' @ post \<and>
      (\<forall>later. fence_span (pre @ ''```'' @ inner @ ''```'' @ later) = Some (pre, inner, later))"
    if "fence_span s = Some (pre, inner, post)" for pre inner post
    using fence_span_SomeD [OF that] fence_span_later [OF that] by blast
  from extract_correctedCode_eq [of s] stored span fence_span_None_iff [of s]
  show ?thesis by blast
qed

theorem first_fenced_block_witness:
  "fence_span ''x ```js\<newline>let a``` y ```b``` z'' = Some (''x '', ''js\<newline>let a'', '' y ```b``` z'') \<and>
   parse_response (example_file ''a.py'') ''x ```js\<newline>let a``` y ```b``` z'' =
     Inr \<lparr>fileName = ''a.py'', filePath = ''src/a.py'', code = ''print(1)'',
          result = ''x  y ```b``` z'', score = 0, correctedCode = Some ''let a'',
          hasCorrections = True\<rparr> \<and>
   fence_span (''x '' @ ''```'' @ ''js\<newline>let a'' @ ''```'' @ '' and no other block'') =
     Some (''x '', ''js\<newline>let a'', '' and no other block'')"
proof -
  have span: "fence_span ''x ```js\<newline>let a``` y ```b``` z'' = Some (''x '', ''js\<newline>let a'', '' y ```b``` z'')"
    by code_simp
  have parsed: "parse_response (example_file ''a.py'') ''x ```js\<newline>let a``` y ```b``` z'' =
     Inr \<lparr>fileName = ''a.py'', filePath = ''src/a.py'', code = ''print(1)'',
          result = ''x  y ```b``` z'', score = 0, correctedCode = Some ''let a'',
          hasCorrections = True\<rparr>"
    by code_simp
  from first_fenced_block [of "''x ```js\<newline>let a``` y ```b``` z''"] span
  have "fence_span (''x '' @ ''```'' @ ''js\<newline>let a'' @ ''```'' @ '' and no other block'') =
     Some (''x '', ''js\<newline>let a'', '' and no other block'')"
    by blast
  with span parsed show ?thesis by blast
qed

text \<open>
  C3, as stated, has \<open>hasCorrections = true\<close> whenever a fenced block exists; for a block
  whose interior is blank \<open>correctedCode\<close> is the empty string and \<open>!!correctedCode\<close> is false.
\<close>

theorem empty_block_counterexample:
  "fence_span ''Nothing to change: ```\<newline>```'' = Some (''Nothing to change: '', ''\<newline>'', []) \<and>
   parse_response (example_file ''a.py'') ''Nothing to change: ```\<newline>```'' =
     Inr \<lparr>fileName = ''a.py'', filePath = ''src/a.py'', code = ''print(1)'',
          result = ''Nothing to change:'', score = 0, correctedCode = Some [],
          hasCorrections = False\<rparr>"
  by code_simp


section \<open>The narrative\<close>

subsection \<open>Global replacement removes the spans from left to right\<close>

lemma strip_all_eq:
  assumes "\<And>s pre x post. locate s = Some (pre, x, post) \<Longrightarrow> length post < length s"
  shows "strip_all locate s =
     (case locate s of None \<Rightarrow> s | Some (pre, x, post) \<Rightarrow> pre @ strip_all locate post)"
proof (cases "locate s")
  case None
  then show ?thesis by (subst strip_all.simps) simp
next
  case (Some a)
  obtain pre x post where a: "a = (pre, x, post)" by (cases a)
  from assms Some a have "length post < length s" by blast
  with Some a show ?thesis by (subst strip_all.simps) simp
qed

lemma replace_all_strip_all:
  assumes exec: "\<And>s. rx_exec r s =
      map_option (\<lambda>(pre, x, post).
          \<lparr>before_match = pre, matched = mt x, groups = g x, after_match = post\<rparr>) (locate s)"
    and ne: "\<And>x. mt x \<noteq> []"
  shows "replace_all r s = strip_all locate s"
proof (induction s rule: length_induct)
  case (1 s)
  show ?case
  proof (cases "locate s")
    case None
    then have "rx_exec r s = None" by (simp add: exec)
    then have "replace_all r s = s" by (subst replace_all.simps) simp
    moreover from None have "strip_all locate s = s" by (subst strip_all.simps) simp
    ultimately show ?thesis by simp
  next
    case (Some a)
    obtain pre x post where a: "a = (pre, x, post)" by (cases a)
    let ?m = "\<lparr>before_match = pre, matched = mt x, groups = g x, after_match = post\<rparr>"
    from Some a have m: "rx_exec r s = Some ?m" by (simp add: exec)
    from rx_exec_split [OF m] have s: "s = pre @ mt x @ post" by simp
    with ne [of x] have len: "length post < length s"
      by (metis add_diff_cancel_right' length_append length_greater_0_conv diff_less
          less_add_same_cancel2 trans_less_add2 zero_less_diff)
    from m ne [of x] have "replace_all r s = pre @ replace_all r post"
      by (subst replace_all.simps) simp
    moreover from Some a len have "strip_all locate s = pre @ strip_all locate post"
      by (subst strip_all.simps) simp
    moreover from 1 len have "replace_all r post = strip_all locate post" by blast
    ultimately show ?thesis by simp
  qed
qed


lemma run_SCORE_TAG_RX:
  "run SCORE_TAG_RX s =
     (if starts_with ''<SCORE:'' s \<and> takeWhile is_digit (drop 7 s) \<noteq> [] \<and>
         starts_with ''>'' (dropWhile is_digit (drop 7 s))
      then [([], drop 1 (dropWhile is_digit (drop 7 s)))]
      else [])"
proof -
  have cls: "in_class Digit = is_digit" by (rule ext) simp
  have len: "length ''<SCORE:'' = 7" "length ''>'' = 1" by simp_all
  show ?thesis
    unfolding SCORE_TAG_RX_def run_Seq_Lit run_Plus_Lit [OF not_digit_gt] cls len
    by simp
qed

lemma tag_here_SomeD:
  assumes "tag_here s = Some (ds, rest)"
  shows "s = score_tag ds @ rest \<and> digits ds"
proof -
  from assms have sw: "starts_with ''<SCORE:'' s" and ne: "takeWhile is_digit (drop 7 s) \<noteq> []"
    and gt: "starts_with ''>'' (dropWhile is_digit (drop 7 s))"
    and ds: "ds = takeWhile is_digit (drop 7 s)"
    and rest: "rest = drop 1 (dropWhile is_digit (drop 7 s))"
    by (auto simp: tag_here_def split: if_splits)
  from sw obtain t where s: "s = ''<SCORE:'' @ t" by (auto simp: starts_with_iff)
  from gt obtain r where r: "dropWhile is_digit (drop 7 s) = ''>'' @ r" by (auto simp: starts_with_iff)
  have "t = ds @ dropWhile is_digit (drop 7 s)" using s ds by simp
  with r rest have "t = ds @ ''>'' @ rest" by simp
  with s have "s = score_tag ds @ rest" by (simp add: score_tag_def)
  moreover from ne ds have "digits ds" by (simp add: digits_def list_all_takeWhile)
  ultimately show ?thesis by blast
qed

lemma tag_here_SomeI:
  assumes "digits ds"
  shows "tag_here (score_tag ds @ rest) = Some (ds, rest)"
proof -
  let ?s = "score_tag ds @ rest"
  have drop7: "drop 7 ?s = ds @ CHR ''>'' # rest" by (simp add: score_tag_def)
  have nd: "\<not> is_digit (CHR ''>'')" by (simp add: is_digit_def)
  from assms have tw: "takeWhile is_digit (drop 7 ?s) = ds"
    and dw: "dropWhile is_digit (drop 7 ?s) = CHR ''>'' # rest"
    unfolding drop7 by (simp_all add: digits_def takeWhile_all dropWhile_all nd)
  have sw: "starts_with ''<SCORE:'' ?s" by (simp add: score_tag_def)
  from assms show ?thesis
    unfolding tag_here_def tw dw using sw by (simp add: digits_def)
qed

lemma match_at_SCORE_TAG_RX:
  "match_at SCORE_TAG_RX s =
     map_option (\<lambda>(ds, rest).
         \<lparr>before_match = [], matched = score_tag ds, groups = [], after_match = rest\<rparr>)
       (tag_here s)"
proof (cases "tag_here s")
  case None
  then show ?thesis
    unfolding match_at_first run_SCORE_TAG_RX tag_here_def by (simp split: if_splits)
next
  case (Some a)
  obtain ds rest where a: "a = (ds, rest)" by (cases a)
  from tag_here_SomeD Some a have s: "s = score_tag ds @ rest" by blast
  then have "take (length s - length rest) s = score_tag ds" by simp
  with Some a show ?thesis
    unfolding match_at_first run_SCORE_TAG_RX tag_here_def by (simp split: if_splits)
qed

lemma match_at_SCORE_RX_tag_here:
  "match_at SCORE_RX s =
     map_option (\<lambda>(ds, rest).
         \<lparr>before_match = [], matched = score_tag ds, groups = [Some ds], after_match = rest\<rparr>)
       (tag_here s)"
proof (cases "tag_here s")
  case None
  then show ?thesis
    unfolding match_at_first run_SCORE_RX tag_here_def by (simp split: if_splits)
next
  case (Some a)
  obtain ds rest where a: "a = (ds, rest)" by (cases a)
  from tag_here_SomeD Some a have s: "s = score_tag ds @ rest" by blast
  then have "take (length s - length rest) s = score_tag ds" by simp
  with Some a show ?thesis
    unfolding match_at_first run_SCORE_RX tag_here_def by (simp split: if_splits)
qed

lemma rx_exec_first_tag:
  assumes at: "\<And>s. match_at r s =
     map_option (\<lambda>(ds, rest).
         \<lparr>before_match = [], matched = score_tag ds, groups = g ds, after_match = rest\<rparr>)
       (tag_here s)"
  shows "rx_exec r s =
     map_option (\<lambda>(pre, ds, post).
         \<lparr>before_match = pre, matched = score_tag ds, groups = g ds, after_match = post\<rparr>)
       (first_tag s)"
proof (induction s)
  case Nil
  have "tag_here [] = None" by (simp add: tag_here_def)
  then show ?case by (simp add: at)
next
  case (Cons c cs)
  show ?case
  proof (cases "tag_here (c # cs)")
    case None
    then have "match_at r (c # cs) = None" by (simp add: at)
    with None Cons.IH show ?thesis
      by (cases "first_tag cs") auto
  next
    case (Some a)
    then show ?thesis by (cases a) (simp add: at)
  qed
qed

lemmas rx_exec_SCORE_TAG_RX = rx_exec_first_tag [of SCORE_TAG_RX "\<lambda>ds. []", OF match_at_SCORE_TAG_RX]
lemmas rx_exec_SCORE_RX = rx_exec_first_tag [of SCORE_RX "\<lambda>ds. [Some ds]", OF match_at_SCORE_RX_tag_here]

lemma first_tag_SomeD:
  "first_tag s = Some (pre, ds, post) \<Longrightarrow> s = pre @ score_tag ds @ post \<and> digits ds"
proof (induction s arbitrary: pre)
  case Nil
  then show ?case by simp
next
  case (Cons c cs)
  show ?case
  proof (cases "tag_here (c # cs)")
    case None
    with Cons.prems obtain pre' where "first_tag cs = Some (pre', ds, post)" "pre = c # pre'"
      by auto
    with Cons.IH show ?thesis by simp
  next
    case (Some a)
    obtain d r where a: "a = (d, r)" by (cases a)
    with Some Cons.prems have "pre = []" "d = ds" "r = post" by simp_all
    with Some a tag_here_SomeD [of "c # cs" ds post] show ?thesis by simp
  qed
qed

lemma first_tag_None_iff:
  "first_tag s = None \<longleftrightarrow> (\<forall>pre ds rest. s = pre @ score_tag ds @ rest \<longrightarrow> \<not> digits ds)"
  unfolding no_score_tag_iff [symmetric] rx_exec_SCORE_RX by simp

lemma replace_all_SCORE_TAG_RX: "replace_all SCORE_TAG_RX s = strip_score_tags s"
  unfolding strip_score_tags_def
  by (rule replace_all_strip_all [OF rx_exec_SCORE_TAG_RX]) (simp add: score_tag_def)

lemma replace_all_THINK_RX: "replace_all THINK_RX s = strip_think s"
  unfolding strip_think_def
  by (rule replace_all_strip_all [OF rx_exec_THINK_RX]) simp

lemma replace_first_FENCE_STRIP_RX: "replace_first FENCE_STRIP_RX s = strip_fence s"
  unfolding strip_fence_def by (rule replace_first_fence)


subsection \<open>White space around the text\<close>

lemma trim_split:
  "\<exists>a b. s = a @ trim s @ b \<and> list_all is_ws a \<and> list_all is_ws b"
proof -
  let ?a = "takeWhile is_ws s"
  let ?m = "dropWhile is_ws s"
  let ?b = "rev (takeWhile is_ws (rev ?m))"
  have "rev (rev ?m) = rev (takeWhile is_ws (rev ?m) @ dropWhile is_ws (rev ?m))"
    by (simp only: takeWhile_dropWhile_id)
  then have m: "?m = trim s @ ?b" by (simp only: rev_rev_ident rev_append trim_def)
  have "s = ?a @ ?m" by simp
  with m have "s = ?a @ trim s @ ?b" by simp
  moreover have "list_all is_ws ?a" by (rule list_all_takeWhile)
  moreover have "list_all is_ws ?b" by (simp add: list_all_iff) (metis in_set_conv_decomp set_takeWhileD)
  ultimately show ?thesis by blast
qed

lemma trim_ws_right: "list_all is_ws b \<Longrightarrow> trim (y @ b) = trim y"
proof (cases "list_all is_ws y")
  case True
  assume "list_all is_ws b"
  with True have 1: "dropWhile is_ws (y @ b) = []" and 2: "dropWhile is_ws y = []"
    by (simp_all add: list_all_iff)
  show ?thesis unfolding trim_def 1 2 ..
next
  case False
  assume b: "list_all is_ws b"
  from False obtain c where "c \<in> set y" "\<not> is_ws c" by (auto simp: list_all_iff)
  then have "dropWhile is_ws (y @ b) = dropWhile is_ws y @ b" by (simp add: dropWhile_append1)
  moreover from b have "dropWhile is_ws (rev b @ z) = dropWhile is_ws z" for z
    by (intro dropWhile_append2) (simp add: list_all_iff)
  ultimately show ?thesis by (simp add: trim_def)
qed

lemma trim_ws_left: "list_all is_ws a \<Longrightarrow> trim (a @ y) = trim y"
proof -
  assume "list_all is_ws a"
  then have "dropWhile is_ws (a @ y) = dropWhile is_ws y"
    by (intro dropWhile_append2) (simp add: list_all_iff)
  then show ?thesis by (simp add: trim_def)
qed

lemma trim_ws_around: "list_all is_ws a \<Longrightarrow> list_all is_ws b \<Longrightarrow> trim (a @ y @ b) = trim y"
  by (simp add: trim_ws_left trim_ws_right)

lemma strip_all_lead:
  assumes D: "\<And>s pre x post. locate s = Some (pre, x, post) \<Longrightarrow> length post < length s"
    and L: "\<And>s. locate (w # s) = map_option (\<lambda>(pre, x, post). (w # pre, x, post)) (locate s)"
  shows "strip_all locate (w # s) = w # strip_all locate s"
proof -
  have 1: "strip_all locate (w # s) =
      (case locate (w # s) of None \<Rightarrow> w # s | Some (pre, x, post) \<Rightarrow> pre @ strip_all locate post)"
    by (rule strip_all_eq [OF D])
  have 2: "strip_all locate s =
      (case locate s of None \<Rightarrow> s | Some (pre, x, post) \<Rightarrow> pre @ strip_all locate post)"
    by (rule strip_all_eq [OF D])
  show ?thesis
    by (subst 1, subst 2) (cases "locate s"; simp add: L split_def)
qed

lemma strip_all_leading:
  assumes D: "\<And>s pre x post. locate s = Some (pre, x, post) \<Longrightarrow> length post < length s"
    and L: "\<And>w s. is_ws w \<Longrightarrow>
        locate (w # s) = map_option (\<lambda>(pre, x, post). (w # pre, x, post)) (locate s)"
  shows "list_all is_ws a \<Longrightarrow> strip_all locate (a @ s) = a @ strip_all locate s"
proof (induction a)
  case Nil
  then show ?case by simp
next
  case (Cons w a)
  then have w: "is_ws w" and a: "list_all is_ws a" by simp_all
  have "strip_all locate (w # (a @ s)) = w # strip_all locate (a @ s)"
    using D L [OF w] by (rule strip_all_lead [of locate w])
  with Cons.IH [OF a] show ?case by simp
qed

lemma strip_all_trailing:
  assumes D: "\<And>s pre x post. locate s = Some (pre, x, post) \<Longrightarrow> length post < length s"
    and T: "\<And>s. locate (s @ b) = map_option (\<lambda>(pre, x, post). (pre, x, post @ b)) (locate s)"
  shows "strip_all locate (s @ b) = strip_all locate s @ b"
proof (induction s rule: length_induct)
  case (1 s)
  have l: "strip_all locate (s @ b) =
      (case locate (s @ b) of None \<Rightarrow> s @ b | Some (pre, x, post) \<Rightarrow> pre @ strip_all locate post)"
    by (rule strip_all_eq [OF D])
  have r: "strip_all locate s =
      (case locate s of None \<Rightarrow> s | Some (pre, x, post) \<Rightarrow> pre @ strip_all locate post)"
    by (rule strip_all_eq [OF D])
  show ?case
  proof (cases "locate s")
    case None
    then show ?thesis by (subst l, subst r) (simp add: T)
  next
    case (Some t)
    obtain pre x post where t: "t = (pre, x, post)" by (cases t)
    from D Some t have "length post < length s" by blast
    with 1 have "strip_all locate (post @ b) = strip_all locate post @ b" by blast
    with Some t show ?thesis by (subst l, subst r) (simp add: T)
  qed
qed

lemma starts_with_ws:
  "\<forall>c \<in> set b. c \<notin> set l \<Longrightarrow> starts_with l (x @ b) = starts_with l x"
proof (induction l x rule: starts_with.induct)
  case (1 s)
  then show ?case by simp
next
  case (2 p ps)
  then show ?case by (cases b) auto
next
  case (3 p ps c cs)
  then show ?case by simp
qed

lemma split_first_ws:
  assumes "l \<noteq> []" and b: "\<forall>c \<in> set b. c \<notin> set l"
  shows "split_first l (s @ b) = map_option (\<lambda>(p, q). (p, q @ b)) (split_first l s)"
proof (induction s)
  case Nil
  have "split_first l b' = None" if "set b' \<subseteq> set b" for b'
    using that
  proof (induction b')
    case Nil
    from assms(1) show ?case by simp
  next
    case (Cons w b')
    then have "w \<notin> set l" using b by auto
    with assms(1) have "\<not> starts_with l (w # b')" by (cases l) auto
    with Cons show ?case by simp
  qed
  then have "split_first l b = None" by blast
  with assms(1) show ?case by simp
next
  case (Cons c cs)
  have "starts_with l ((c # cs) @ b) = starts_with l (c # cs)"
    using b by (rule starts_with_ws)
  then have sw: "starts_with l (c # cs @ b) = starts_with l (c # cs)" by simp
  show ?case
  proof (cases "starts_with l (c # cs)")
    case True
    then obtain t where t: "c # cs = l @ t" unfolding starts_with_iff by blast
    then have "drop (length l) (c # cs @ b) = drop (length l) (c # cs) @ b"
      by (metis append_Cons append_eq_conv_conj append.assoc)
    with True sw show ?thesis by simp
  next
    case False
    with sw Cons.IH show ?thesis
      by (cases "split_first l cs") auto
  qed
qed

lemma span_between_ws:
  assumes "op \<noteq> []" "cl \<noteq> []"
    and "\<forall>c \<in> set b. c \<notin> set op" "\<forall>c \<in> set b. c \<notin> set cl"
  shows "span_between op cl (s @ b) =
     map_option (\<lambda>(pre, x, post). (pre, x, post @ b)) (span_between op cl s)"
proof (cases "split_first op s")
  case None
  then show ?thesis
    unfolding span_between_def split_first_ws [OF assms(1,3)] by simp
next
  case (Some a)
  obtain pre t where a: "a = (pre, t)" by (cases a)
  with Some show ?thesis
    unfolding span_between_def split_first_ws [OF assms(1,3)]
    by (cases "split_first cl t") (simp_all add: split_first_ws [OF assms(2,4)] split_def)
qed

lemma ws_not_in_think:
  "list_all is_ws b \<Longrightarrow> \<forall>c \<in> set b. c \<notin> set ''<think>''"
  "list_all is_ws b \<Longrightarrow> \<forall>c \<in> set b. c \<notin> set ''</think>''"
  by (auto simp: list_all_iff is_ws_def)

lemma think_span_length:
  "think_span s = Some (pre, x, post) \<Longrightarrow> length post < length s"
  unfolding think_span_def by (drule span_between_SomeD) simp

lemma think_span_lead:
  "is_ws w \<Longrightarrow>
   think_span (w # s) = map_option (\<lambda>(pre, x, post). (w # pre, x, post)) (think_span s)"
  unfolding think_span_def
  by (rule span_between_Cons) (auto simp: is_ws_def)

lemma think_span_trail:
  assumes "list_all is_ws b"
  shows "think_span (s @ b) = map_option (\<lambda>(pre, x, post). (pre, x, post @ b)) (think_span s)"
proof -
  have "''<think>'' \<noteq> []" "''</think>'' \<noteq> []" by simp_all
  then show ?thesis
    unfolding think_span_def
    using ws_not_in_think(1) [OF assms] ws_not_in_think(2) [OF assms]
    by (rule span_between_ws)
qed

lemma strip_think_ws:
  assumes "list_all is_ws a" "list_all is_ws b"
  shows "strip_think (a @ s @ b) = a @ strip_think s @ b"
proof -
  have "strip_think (a @ s @ b) = a @ strip_think (s @ b)"
    unfolding strip_think_def
    using think_span_length think_span_lead assms(1) by (rule strip_all_leading)
  also have "strip_think (s @ b) = strip_think s @ b"
    unfolding strip_think_def
    using think_span_length think_span_trail [OF assms(2)] by (rule strip_all_trailing)
  finally show ?thesis .
qed

lemma score_tag_no_ws: "digits ds \<Longrightarrow> c \<in> set (score_tag ds) \<Longrightarrow> \<not> is_ws c"
  by (auto simp: score_tag_def digits_def list_all_iff is_ws_def is_digit_def)

lemma tag_here_ws:
  assumes b: "list_all is_ws b"
  shows "tag_here (s @ b) = map_option (\<lambda>(ds, rest). (ds, rest @ b)) (tag_here s)"
proof (cases "tag_here s")
  case (Some a)
  obtain ds rest where a: "a = (ds, rest)" by (cases a)
  from tag_here_SomeD Some a have s: "s = score_tag ds @ rest" and ds: "digits ds" by blast+
  from tag_here_SomeI [OF ds, of "rest @ b"] s have "tag_here (s @ b) = Some (ds, rest @ b)"
    by simp
  with Some a show ?thesis by simp
next
  case None
  have "tag_here (s @ b) = None"
  proof (cases "tag_here (s @ b)")
    case None
    then show ?thesis .
  next
    case (Some a)
    obtain ds rest where a: "a = (ds, rest)" by (cases a)
    from tag_here_SomeD Some a have eq: "s @ b = score_tag ds @ rest" and ds: "digits ds" by blast+
    from eq obtain us where "s = score_tag ds @ us \<or> (s @ us = score_tag ds \<and> b = us @ rest)"
      unfolding append_eq_append_conv2 by blast
    then show ?thesis
    proof
      assume "s = score_tag ds @ us"
      with tag_here_SomeI [OF ds, of us] None show ?thesis by simp
    next
      assume us: "s @ us = score_tag ds \<and> b = us @ rest"
      show ?thesis
      proof (cases us)
        case Nil
        with us have "s = score_tag ds @ []" by simp
        with tag_here_SomeI [OF ds, of "[]"] None show ?thesis by simp
      next
        case (Cons u us')
        with us have "u \<in> set (score_tag ds)" by (metis in_set_conv_decomp)
        with ds have "\<not> is_ws u" by (rule score_tag_no_ws)
        moreover from Cons us b have "is_ws u" by simp
        ultimately show ?thesis by blast
      qed
    qed
  qed
  with None show ?thesis by simp
qed

lemma tag_here_lead: "is_ws w \<Longrightarrow> tag_here (w # s) = None"
  by (auto simp: tag_here_def is_ws_def)

lemma first_tag_length:
  "first_tag s = Some (pre, x, post) \<Longrightarrow> length post < length s"
  by (drule first_tag_SomeD) (simp add: score_tag_def)

lemma first_tag_lead:
  "is_ws w \<Longrightarrow>
   first_tag (w # s) = map_option (\<lambda>(pre, x, post). (w # pre, x, post)) (first_tag s)"
  by (simp add: tag_here_lead)

lemma first_tag_ws_only: "list_all is_ws b \<Longrightarrow> first_tag b = None"
  by (induction b) (simp_all add: tag_here_lead)

lemma first_tag_trail:
  assumes b: "list_all is_ws b"
  shows "first_tag (s @ b) = map_option (\<lambda>(pre, x, post). (pre, x, post @ b)) (first_tag s)"
proof (induction s)
  case Nil
  from b show ?case by (simp add: first_tag_ws_only)
next
  case (Cons c cs)
  have here: "tag_here (c # cs @ b) = map_option (\<lambda>(ds, rest). (ds, rest @ b)) (tag_here (c # cs))"
    using tag_here_ws [OF b, of "c # cs"] by simp
  show ?case
  proof (cases "tag_here (c # cs)")
    case None
    with here Cons.IH show ?thesis
      by (cases "first_tag cs") auto
  next
    case (Some a)
    with here show ?thesis by (cases a) simp
  qed
qed

lemma strip_score_tags_ws:
  assumes "list_all is_ws a" "list_all is_ws b"
  shows "strip_score_tags (a @ s @ b) = a @ strip_score_tags s @ b"
proof -
  have "strip_score_tags (a @ s @ b) = a @ strip_score_tags (s @ b)"
    unfolding strip_score_tags_def
    using first_tag_length first_tag_lead assms(1) by (rule strip_all_leading)
  also have "strip_score_tags (s @ b) = strip_score_tags s @ b"
    unfolding strip_score_tags_def
    using first_tag_length first_tag_trail [OF assms(2)] by (rule strip_all_trailing)
  finally show ?thesis .
qed

lemma trim_strip_trim:
  "trim (strip_think (strip_score_tags (trim s))) = trim (strip_think (strip_score_tags s))"
proof -
  obtain a b where s: "s = a @ trim s @ b" and a: "list_all is_ws a" and b: "list_all is_ws b"
    using trim_split by blast
  have "strip_think (strip_score_tags (a @ trim s @ b)) =
      a @ strip_think (strip_score_tags (trim s)) @ b"
    by (simp only: strip_score_tags_ws [OF a b] strip_think_ws [OF a b])
  then have "trim (strip_think (strip_score_tags (a @ trim s @ b))) =
      trim (strip_think (strip_score_tags (trim s)))"
    by (simp only: trim_ws_around [OF a b])
  with s show ?thesis by simp
qed

lemma cleanedResult_eq: "cleanedResult res = trim (strip_think (strip_score_tags res))"
  unfolding cleanedResult_def replace_all_SCORE_TAG_RX replace_all_THINK_RX ..

lemma strip_think_eq:
  "strip_think s =
     (case think_span s of None \<Rightarrow> s | Some (pre, inner, post) \<Rightarrow> pre @ strip_think post)"
  unfolding strip_think_def by (rule strip_all_eq) (rule think_span_length)

lemma strip_score_tags_eq:
  "strip_score_tags s =
     (case first_tag s of None \<Rightarrow> s | Some (pre, ds, post) \<Rightarrow> pre @ strip_score_tags post)"
  unfolding strip_score_tags_def by (rule strip_all_eq) (rule first_tag_length)

text \<open>
  C4. For every response text the narrative that is displayed (the \<open>result\<close> that
  \<open>processFile\<close> stores, cleaned by \<open>processAnalysisResult\<close>) is the text without its first
  fenced block, then without any score tag, then without any \<open><think>...</think>\<close> span
  (whatever is inside, line feeds included), trimmed once at the end. The text
  \<open><think>internal notes</think>Visible text\<close> gives \<open>Visible text\<close>. Each removal is one
  pass from left to right over the text that the removal before it left: a tag that the
  removal of the fenced block puts together is removed with the others, and what closes
  up around a removed span is not searched again.
\<close>

theorem narrative_is_stripped_text:
  "(\<exists>v. parse_response f raw = Inr v \<and> result v = trim (strip_fence raw) \<and>
      cleanedResult (result v) = trim (strip_think (strip_score_tags (strip_fence raw)))) \<and>
   strip_fence raw =
     (case fence_span raw of None \<Rightarrow> raw | Some (pre, inner, post) \<Rightarrow> pre @ post) \<and>
   strip_score_tags s =
     (case first_tag s of None \<Rightarrow> s | Some (pre, ds, post) \<Rightarrow> pre @ strip_score_tags post) \<and>
   strip_think s =
     (case think_span s of None \<Rightarrow> s | Some (pre, inner, post) \<Rightarrow> pre @ strip_think post) \<and>
   (\<exists>v. parse_response (example_file ''a.py'') ''<think>internal notes</think>Visible text'' = Inr v \<and>
      cleanedResult (result v) = ''Visible text'') \<and>
   cleanedResult ''<SCORE:85> Fine. <think>one\<newline>two</think> Done.'' = ''Fine.  Done.'' \<and>
   cleanedResult (trim (strip_fence ''<SCORE:```x```5> hi'')) = ''hi'' \<and>
   cleanedResult ''<thi<think>x</think>nk>a</think>'' = ''<think>a</think>''"
proof -
  let ?v = "\<lparr>fileName = name f, filePath = path f, code = content f,
          result = trim (replace_first FENCE_STRIP_RX raw), score = extract_score raw,
          correctedCode = map_option (\<lambda>(pre, inner, post). trim (strip_tag inner)) (fence_span raw),
          hasCorrections =
            (map_option (\<lambda>(pre, inner, post). trim (strip_tag inner)) (fence_span raw) \<noteq> None \<and>
             map_option (\<lambda>(pre, inner, post). trim (strip_tag inner)) (fence_span raw) \<noteq> Some [])\<rparr>"
  have "parse_response f raw = Inr ?v" by (rule parse_response_total)
  moreover have r: "result ?v = trim (strip_fence raw)"
    by (simp add: replace_first_FENCE_STRIP_RX)
  moreover have "cleanedResult (result ?v) = trim (strip_think (strip_score_tags (strip_fence raw)))"
    unfolding r cleanedResult_eq by (rule trim_strip_trim)
  ultimately have general: "\<exists>v. parse_response f raw = Inr v \<and> result v = trim (strip_fence raw) \<and>
      cleanedResult (result v) = trim (strip_think (strip_score_tags (strip_fence raw)))"
    by blast
  have "parse_response (example_file ''a.py'') ''<think>internal notes</think>Visible text'' =
      Inr \<lparr>fileName = ''a.py'', filePath = ''src/a.py'', code = ''print(1)'',
           result = ''<think>internal notes</think>Visible text'', score = 0,
           correctedCode = None, hasCorrections = False\<rparr>"
    by code_simp
  moreover have "cleanedResult ''<think>internal notes</think>Visible text'' = ''Visible text''"
    by code_simp
  ultimately have example: "\<exists>v. parse_response (example_file ''a.py'')
        ''<think>internal notes</think>Visible text'' = Inr v \<and>
      cleanedResult (result v) = ''Visible text''"
    by simp
  have lines: "cleanedResult ''<SCORE:85> Fine. <think>one\<newline>two</think> Done.'' = ''Fine.  Done.''"
    by code_simp
  have order: "cleanedResult (trim (strip_fence ''<SCORE:```x```5> hi'')) = ''hi''"
    by code_simp
  have once: "cleanedResult ''<thi<think>x</think>nk>a</think>'' = ''<think>a</think>''"
    by code_simp
  from general example lines order once
    strip_score_tags_eq [of s] strip_think_eq [of s] strip_fence_def [of raw]
  show ?thesis by blast
qed

section \<open>A response without any pattern\<close>

lemma includes_str_iff: "includes_str s p \<longleftrightarrow> (\<exists>a b. s = a @ p @ b)"
proof (induction s)
  case Nil
  show ?case by (cases p) (auto simp: starts_with_iff)
next
  case (Cons c cs)
  show ?case
  proof
    assume "includes_str (c # cs) p"
    then consider "starts_with p (c # cs)" | "includes_str cs p" by auto
    then show "\<exists>a b. c # cs = a @ p @ b"
    proof cases
      case 1
      then obtain t where "c # cs = p @ t" unfolding starts_with_iff by blast
      then have "c # cs = [] @ p @ t" by simp
      then show ?thesis by blast
    next
      case 2
      with Cons.IH obtain a b where "cs = a @ p @ b" by blast
      then have "c # cs = (c # a) @ p @ b" by simp
      then show ?thesis by blast
    qed
  next
    assume "\<exists>a b. c # cs = a @ p @ b"
    then obtain a b where ab: "c # cs = a @ p @ b" by blast
    show "includes_str (c # cs) p"
    proof (cases a)
      case Nil
      with ab have "starts_with p (c # cs)" unfolding starts_with_iff by auto
      then show ?thesis by simp
    next
      case (Cons a0 a')
      with ab have "cs = a' @ p @ b" by simp
      with Cons.IH have "includes_str cs p" by blast
      then show ?thesis by simp
    qed
  qed
qed

lemma split_nl_head: "\<exists>h t b. split_nl x = h # t \<and> x = h @ b"
proof (induction x)
  case Nil
  show ?case by simp
next
  case (Cons c cs)
  then obtain h t b where ht: "split_nl cs = h # t" and cs: "cs = h @ b" by blast
  show ?case
  proof (cases "c = CHR 0x0A")
    case True
    then have "split_nl (c # cs) = [] # split_nl cs" "c # cs = [] @ (c # cs)" by simp_all
    then show ?thesis by blast
  next
    case False
    with ht have "split_nl (c # cs) = (c # h) # t" by simp
    moreover from cs have "c # cs = (c # h) @ b" by simp
    ultimately show ?thesis by blast
  qed
qed

lemma split_nl_part: "l \<in> set (split_nl x) \<Longrightarrow> \<exists>a b. x = a @ l @ b"
proof (induction x arbitrary: l)
  case Nil
  then show ?case by simp
next
  case (Cons c cs)
  show ?case
  proof (cases "c = CHR 0x0A")
    case True
    with Cons.prems consider "l = []" | "l \<in> set (split_nl cs)" by auto
    then show ?thesis
    proof cases
      case 1
      then have "c # cs = [] @ l @ (c # cs)" by simp
      then show ?thesis by blast
    next
      case 2
      with Cons.IH obtain a b where "cs = a @ l @ b" by blast
      then have "c # cs = (c # a) @ l @ b" by simp
      then show ?thesis by blast
    qed
  next
    case False
    obtain h t b where ht: "split_nl cs = h # t" and cs: "cs = h @ b"
      using split_nl_head by blast
    with False Cons.prems consider "l = c # h" | "l \<in> set t" by auto
    then show ?thesis
    proof cases
      case 1
      with cs have "c # cs = [] @ l @ b" by simp
      then show ?thesis by blast
    next
      case 2
      with ht have "l \<in> set (split_nl cs)" by simp
      with Cons.IH obtain a b where "cs = a @ l @ b" by blast
      then have "c # cs = (c # a) @ l @ b" by simp
      then show ?thesis by blast
    qed
  qed
qed

lemma no_trigger_part:
  assumes "\<not> includes_str (toLowerCase s) kw" and "s = a @ l @ b"
  shows "\<not> includes_str (toLowerCase l) kw"
proof
  assume "includes_str (toLowerCase l) kw"
  then obtain u v where "toLowerCase l = u @ kw @ v" unfolding includes_str_iff by blast
  with assms(2) have "toLowerCase s = (toLowerCase a @ u) @ kw @ (v @ toLowerCase b)"
    by (simp add: toLowerCase_def)
  with assms(1) show False unfolding includes_str_iff by blast
qed

lemma next_section_plain:
  assumes "\<forall>kw \<in> set trigger_words. \<not> includes_str (toLowerCase l) kw"
  shows "next_section c l = c"
  using assms by (simp add: next_section_def trigger_words_def Let_def)

lemma lines_under_plain:
  assumes "\<forall>l \<in> set ls. next_section c l = c"
  shows "lines_under k c ls = (if k = c then filter (\<lambda>l. l \<noteq> []) (map trim ls) else [])"
  using assms
proof (induction ls)
  case Nil
  show ?case by (simp add: lines_under_def)
next
  case (Cons l ls)
  then have "next_section c l = c" and rest: "\<forall>l \<in> set ls. next_section c l = c" by simp_all
  moreover from Cons.IH [OF rest]
  have "lines_under k c ls = (if k = c then filter (\<lambda>l. l \<noteq> []) (map trim ls) else [])" .
  ultimately show ?case by (cases "k = c") (simp_all add: lines_under_def)
qed

lemma classify_lines_plain:
  assumes "\<forall>l \<in> set ls. next_section Analysis l = Analysis"
  shows "classify_lines ls =
     \<lparr>analysis = filter (\<lambda>l. l \<noteq> []) (map trim ls), suggestions = [], security = [],
      performance = []\<rparr>"
proof -
  have "section_of k (classify_lines ls) = lines_under k Analysis ls" for k
    by (cases k) (simp_all add: classify_lines_def foldl_classify)
  with lines_under_plain [OF assms]
  have k: "section_of k (classify_lines ls) =
      (if k = Analysis then filter (\<lambda>l. l \<noteq> []) (map trim ls) else [])" for k
    by simp
  from k [of Analysis] k [of Suggestions] k [of Security] k [of Performance]
  show ?thesis by (cases "classify_lines ls") simp
qed


lemma think_span_None_iff:
  "think_span s = None \<longleftrightarrow> (\<forall>p x q. s \<noteq> p @ ''<think>'' @ x @ ''</think>'' @ q)"
  unfolding think_span_def by (rule span_between_None_iff)

lemma strip_plain:
  assumes tag: "first_tag s = None" and think: "think_span s = None"
  shows "strip_think (strip_score_tags s) = s"
proof -
  from tag have "strip_score_tags s = s" by (subst strip_score_tags_eq) simp
  moreover from think have "strip_think s = s" by (subst strip_think_eq) simp
  ultimately show ?thesis by simp
qed

text \<open>
  C6. For every text \<open>parse_response\<close> returns a result: it never throws. A text with no
  score tag, no fenced block, no \<open><think>...</think>\<close> span and none of the six trigger words
  gives score 0 and no corrected code, and all its lines that are not blank, trimmed, in
  the section \<open>analysis\<close>, the other three sections being empty.
\<close>

theorem parser_total:
  "(\<exists>v. parse_response f s = Inr v) \<and>
   ((\<forall>pre ds rest. s = pre @ score_tag ds @ rest \<longrightarrow> \<not> digits ds) \<and>
    (\<forall>p x q. s \<noteq> p @ ''```'' @ x @ ''```'' @ q) \<and>
    (\<forall>p x q. s \<noteq> p @ ''<think>'' @ x @ ''</think>'' @ q) \<and>
    (\<forall>kw \<in> set trigger_words. \<not> includes_str (toLowerCase s) kw) \<longrightarrow>
    parse_response f s =
      Inr \<lparr>fileName = name f, filePath = path f, code = content f, result = trim s, score = 0,
           correctedCode = None, hasCorrections = False\<rparr> \<and>
    processAnalysisResult (trim s) =
      \<lparr>analysis = filter (\<lambda>l. l \<noteq> []) (map trim (split_nl (trim s))), suggestions = [],
       security = [], performance = []\<rparr>)"
proof -
  have total: "\<exists>v. parse_response f s = Inr v"
    unfolding parse_response_total by blast
  have plain: "parse_response f s =
      Inr \<lparr>fileName = name f, filePath = path f, code = content f, result = trim s, score = 0,
           correctedCode = None, hasCorrections = False\<rparr> \<and>
    processAnalysisResult (trim s) =
      \<lparr>analysis = filter (\<lambda>l. l \<noteq> []) (map trim (split_nl (trim s))), suggestions = [],
       security = [], performance = []\<rparr>"
    if no_tag: "\<forall>pre ds rest. s = pre @ score_tag ds @ rest \<longrightarrow> \<not> digits ds"
      and no_fence: "\<forall>p x q. s \<noteq> p @ ''```'' @ x @ ''```'' @ q"
      and no_think: "\<forall>p x q. s \<noteq> p @ ''<think>'' @ x @ ''</think>'' @ q"
      and no_trigger: "\<forall>kw \<in> set trigger_words. \<not> includes_str (toLowerCase s) kw"
  proof -
    from no_tag have score0: "extract_score s = 0"
      unfolding no_score_tag_iff [symmetric] by (rule extract_score_none)
    from no_tag have tag: "first_tag s = None" unfolding first_tag_None_iff .
    from no_fence have fence: "fence_span s = None" unfolding fence_span_None_iff .
    from no_think have think: "think_span s = None" unfolding think_span_None_iff .
    from fence have "replace_first FENCE_STRIP_RX s = s" by (simp add: replace_first_fence)
    with fence score0 have parsed: "parse_response f s =
      Inr \<lparr>fileName = name f, filePath = path f, code = content f, result = trim s, score = 0,
           correctedCode = None, hasCorrections = False\<rparr>"
      unfolding parse_response_total by simp
    have "cleanedResult (trim s) = trim (strip_think (strip_score_tags s))"
      unfolding cleanedResult_eq by (rule trim_strip_trim)
    with strip_plain [OF tag think] have cleaned: "cleanedResult (trim s) = trim s" by simp
    obtain a b where s: "s = a @ trim s @ b" using trim_split by blast
    have "next_section Analysis l = Analysis" if "l \<in> set (split_nl (trim s))" for l
    proof (rule next_section_plain, rule ballI)
      fix kw assume kw: "kw \<in> set trigger_words"
      from split_nl_part [OF that] obtain u v where "trim s = u @ l @ v" by blast
      with s have "s = (a @ u) @ l @ (v @ b)" by (metis append.assoc)
      moreover from no_trigger kw have "\<not> includes_str (toLowerCase s) kw" by blast
      ultimately show "\<not> includes_str (toLowerCase l) kw" by (rule no_trigger_part [rotated])
    qed
    then have "classify_lines (split_nl (trim s)) =
      \<lparr>analysis = filter (\<lambda>l. l \<noteq> []) (map trim (split_nl (trim s))), suggestions = [],
       security = [], performance = []\<rparr>"
      by (intro classify_lines_plain) blast
    with cleaned parsed show ?thesis by (simp add: processAnalysisResult_def)
  qed
  from total plain show ?thesis by blast
qed

theorem parser_total_witness:
  "parse_response (example_file ''a.py'') ''  All good.\<newline>\<newline>  Nothing to add. '' =
      Inr \<lparr>fileName = ''a.py'', filePath = ''src/a.py'', code = ''print(1)'',
           result = ''All good.\<newline>\<newline>  Nothing to add.'', score = 0,
           correctedCode = None, hasCorrections = False\<rparr> \<and>
   processAnalysisResult ''All good.\<newline>\<newline>  Nothing to add.'' =
      \<lparr>analysis = [''All good.'', ''Nothing to add.''], suggestions = [], security = [],
       performance = []\<rparr>"
proof -
  let ?s = "''  All good.\<newline>\<newline>  Nothing to add. ''"
  have "rx_exec SCORE_RX ?s = None" by code_simp
  then have no_tag: "\<forall>pre ds rest. ?s = pre @ score_tag ds @ rest \<longrightarrow> \<not> digits ds"
    by (rule iffD1 [OF no_score_tag_iff])
  have "fence_span ?s = None" by code_simp
  then have no_fence: "\<forall>p x q. ?s \<noteq> p @ ''```'' @ x @ ''```'' @ q"
    by (rule iffD1 [OF fence_span_None_iff])
  have "think_span ?s = None" by code_simp
  then have no_think: "\<forall>p x q. ?s \<noteq> p @ ''<think>'' @ x @ ''</think>'' @ q"
    by (rule iffD1 [OF think_span_None_iff])
  have no_trigger: "\<forall>kw \<in> set trigger_words. \<not> includes_str (toLowerCase ?s) kw"
    by code_simp
  have t: "trim ?s = ''All good.\<newline>\<newline>  Nothing to add.''" by code_simp
  have l: "filter (\<lambda>l. l \<noteq> []) (map trim (split_nl ''All good.\<newline>\<newline>  Nothing to add.'')) =
      [''All good.'', ''Nothing to add.'']"
    by code_simp
  from parser_total [of "example_file ''a.py''" ?s] no_tag no_fence no_think no_trigger
  have "parse_response (example_file ''a.py'') ?s =
      Inr \<lparr>fileName = name (example_file ''a.py''), filePath = path (example_file ''a.py''),
           code = content (example_file ''a.py''), result = trim ?s, score = 0,
           correctedCode = None, hasCorrections = False\<rparr> \<and>
    processAnalysisResult (trim ?s) =
      \<lparr>analysis = filter (\<lambda>l. l \<noteq> []) (map trim (split_nl (trim ?s))), suggestions = [],
       security = [], performance = []\<rparr>"
    by blast
  then show ?thesis
    unfolding t l by (simp add: example_file_def)
qed


end
